theory Spec2Isabelle
  imports Main "HOL-Library.Word"
begin

unbundle bit_operations_syntax

section \<open>Go strings and the library functions used by testdb.go\<close>

text \<open>
  This theory is a model of \<^verbatim>\<open>testdb.go\<close>, a stub of a \<^verbatim>\<open>database/sql\<close> driver: the
  registry of stubbed queries (\<^verbatim>\<open>Conn\<close>), the statement (\<^verbatim>\<open>Stmt\<close>), the row source
  (\<^verbatim>\<open>Rows\<close>) and the conversion of CSV text into a row source (\<^verbatim>\<open>RowsFromCSVString\<close>).
  Each function of the source is a function here under its own name; a method that assigns to
  its receiver takes the receiver and returns it changed; a panic is a value.

  A Go string is a sequence of bytes, here a \<^typ>\<open>string\<close> (a list of 8-bit characters).
  The functions of the Go library that the source calls are written out on bytes, the way the
  library documents them.
\<close>

definition byte :: "char \<Rightarrow> nat" where
  "byte c = of_char c"

text \<open>The class \<^verbatim>\<open>\s\<close> of package regexp: exactly tab, newline, form feed, carriage
  return and space. The vertical tab is not in it.\<close>

definition isReSpace :: "char \<Rightarrow> bool" where
  "isReSpace c = (byte c = 9 \<or> byte c = 10 \<or> byte c = 12 \<or> byte c = 13 \<or> byte c = 32)"

text \<open>The class \<^verbatim>\<open>\d\<close> of package regexp: the ASCII digits.\<close>

definition isDigit :: "char \<Rightarrow> bool" where
  "isDigit c = (48 \<le> byte c \<and> byte c \<le> 57)"

text \<open>\<^verbatim>\<open>whitespaceRegexp.ReplaceAllString(query, "")\<close> with
  \<^verbatim>\<open>whitespaceRegexp = regexp.MustCompile("\\s")\<close>: every match is one byte of the class, and
  the bytes between matches are copied as they are.\<close>

definition whitespaceRegexp_ReplaceAllString :: "string \<Rightarrow> string" where
  "whitespaceRegexp_ReplaceAllString query = filter (\<lambda>c. \<not> isReSpace c) query"

definition isASCII :: "string \<Rightarrow> bool" where
  "isASCII s = list_all (\<lambda>c. byte c < 128) s"

definition lowerASCII :: "char \<Rightarrow> char" where
  "lowerASCII c = (if 65 \<le> byte c \<and> byte c \<le> 90 then char_of (byte c + 32) else c)"

subsection \<open>unicode/utf8, strings.Map and strings.ToLower\<close>

text \<open>A rune is a Unicode code point, here a natural number. \<^verbatim>\<open>utf8.RuneError\<close> (U+FFFD) is
  what a byte that is not part of a valid encoding is read as; \<^verbatim>\<open>utf8.MaxRune\<close> is the last
  code point; \<^verbatim>\<open>utf8.ValidRune\<close> holds of the code points up to it that are not surrogate
  halves.\<close>

definition RuneError :: nat where
  "RuneError = 0xFFFD"

definition MaxRune :: nat where
  "MaxRune = 0x10FFFF"

definition ValidRune :: "nat \<Rightarrow> bool" where
  "ValidRune r = (r \<le> MaxRune \<and> \<not> (0xD800 \<le> r \<and> r \<le> 0xDFFF))"

text \<open>The table \<^verbatim>\<open>first\<close> of package utf8 and its \<^verbatim>\<open>acceptRanges\<close>: the size of the
  sequence that a first byte announces (1 for an ASCII byte, 0 for a byte that starts no
  sequence), and the range in which the second byte must lie.\<close>

definition firstSize :: "nat \<Rightarrow> nat" where
  "firstSize s0 =
     (if s0 < 0x80 then 1
      else if s0 < 0xC2 then 0
      else if s0 < 0xE0 then 2
      else if s0 < 0xF0 then 3
      else if s0 < 0xF5 then 4
      else 0)"

definition acceptLo :: "nat \<Rightarrow> nat" where
  "acceptLo s0 = (if s0 = 0xE0 then 0xA0 else if s0 = 0xF0 then 0x90 else 0x80)"

definition acceptHi :: "nat \<Rightarrow> nat" where
  "acceptHi s0 = (if s0 = 0xED then 0x9F else if s0 = 0xF4 then 0x8F else 0xBF)"

text \<open>\<^verbatim>\<open>utf8.DecodeRuneInString\<close>: the rune at the start of a string and the number of bytes
  it takes. A sequence that is invalid or cut short gives \<^verbatim>\<open>RuneError\<close> and one byte. The
  masks and shifts of the library are written with \<open>mod\<close> and multiplication.\<close>

definition DecodeRuneInString :: "string \<Rightarrow> nat \<times> nat" where
  "DecodeRuneInString s =
     (if s = [] then (RuneError, 0)
      else let s0 = byte (s ! 0); sz = firstSize s0
        in if sz = 1 then (s0, 1)
           else if sz = 0 then (RuneError, 1)
           else if length s < sz then (RuneError, 1)
           else let s1 = byte (s ! 1)
             in if s1 < acceptLo s0 \<or> acceptHi s0 < s1 then (RuneError, 1)
                else if sz \<le> 2 then ((s0 mod 32) * 64 + s1 mod 64, 2)
                else let s2 = byte (s ! 2)
                  in if s2 < 0x80 \<or> 0xBF < s2 then (RuneError, 1)
                     else if sz \<le> 3
                     then ((s0 mod 16) * 4096 + (s1 mod 64) * 64 + s2 mod 64, 3)
                     else let s3 = byte (s ! 3)
                       in if s3 < 0x80 \<or> 0xBF < s3 then (RuneError, 1)
                          else ((s0 mod 8) * 262144 + (s1 mod 64) * 4096
                                  + (s2 mod 64) * 64 + s3 mod 64, 4))"

lemma DecodeRuneInString_size:
  "s \<noteq> [] \<Longrightarrow> 0 < snd (DecodeRuneInString s) \<and> snd (DecodeRuneInString s) \<le> length s"
  by (cases s) (simp_all add: DecodeRuneInString_def Let_def)

lemma DecodeRuneInString_drop: "s \<noteq> [] \<Longrightarrow> length s - snd (DecodeRuneInString s) < length s"
  using DecodeRuneInString_size [of s] by simp

text \<open>\<^verbatim>\<open>for _, c := range s\<close>: the runes of a string, decoded one after the other.\<close>

function runes :: "string \<Rightarrow> nat list" where
  "runes s =
     (if s = [] then []
      else fst (DecodeRuneInString s) # runes (drop (snd (DecodeRuneInString s)) s))"
  by pat_completeness auto
termination
  by (relation "measure length") (simp_all add: DecodeRuneInString_drop)

declare runes.simps [simp del]

text \<open>\<^verbatim>\<open>utf8.EncodeRune\<close>, which \<^verbatim>\<open>Builder.WriteRune\<close> writes with: the bytes of a rune in
  UTF-8. A rune above \<^verbatim>\<open>MaxRune\<close> or a surrogate half is written as \<^verbatim>\<open>RuneError\<close>.\<close>

definition EncodeRune :: "nat \<Rightarrow> string" where
  "EncodeRune r =
     (if r \<le> 0x7F then [char_of r]
      else if r \<le> 0x7FF then [char_of (0xC0 + r div 64), char_of (0x80 + r mod 64)]
      else if MaxRune < r \<or> (0xD800 \<le> r \<and> r \<le> 0xDFFF)
      then [char_of (0xE0 + RuneError div 4096), char_of (0x80 + RuneError div 64 mod 64),
            char_of (0x80 + RuneError mod 64)]
      else if r \<le> 0xFFFF
      then [char_of (0xE0 + r div 4096), char_of (0x80 + r div 64 mod 64),
            char_of (0x80 + r mod 64)]
      else [char_of (0xF0 + r div 262144), char_of (0x80 + r div 4096 mod 64),
            char_of (0x80 + r div 64 mod 64), char_of (0x80 + r mod 64)])"

text \<open>\<^verbatim>\<open>strings.Map(mapping, s)\<close>: the string of the mapped runes of \<open>s\<close>. A byte of \<open>s\<close> that
  is not part of a valid encoding is read as \<^verbatim>\<open>RuneError\<close> and written as its three bytes.
  No rune is negative here, so the mapping drops none. (Where the mapping changes no rune of
  a valid string the library returns \<open>s\<close> itself, which is that same string.)\<close>

definition strings_Map :: "(nat \<Rightarrow> nat) \<Rightarrow> string \<Rightarrow> string" where
  "strings_Map mapping s = concat (map (\<lambda>c. EncodeRune (mapping c)) (runes s))"

text \<open>\<^verbatim>\<open>unicode.ToLower\<close>: a rune up to \<^verbatim>\<open>MaxASCII\<close> by the rule for the letters A to Z, any
  other rune through the case tables of package unicode,
  \<^verbatim>\<open>unicode.To(unicode.LowerCase, r)\<close>. The tables are not part of the source: they are the
  parameter \<open>lowerCase\<close>, a function on code points.\<close>

definition unicode_ToLower :: "(nat \<Rightarrow> nat) \<Rightarrow> nat \<Rightarrow> nat" where
  "unicode_ToLower lowerCase r =
     (if r \<le> 0x7F then (if 65 \<le> r \<and> r \<le> 90 then r + 32 else r) else lowerCase r)"

text \<open>\<^verbatim>\<open>strings.ToLower\<close>: on a string of ASCII bytes the letters A to Z are mapped to a to z,
  byte by byte; any other string is \<^verbatim>\<open>strings.Map(unicode.ToLower, s)\<close>.\<close>

definition ToLower :: "(nat \<Rightarrow> nat) \<Rightarrow> string \<Rightarrow> string" where
  "ToLower lowerCase s =
     (if isASCII s then map lowerASCII s else strings_Map (unicode_ToLower lowerCase) s)"

subsection \<open>crypto/sha1\<close>

text \<open>SHA-1 (FIPS 180-4) on 32-bit words, held as natural numbers below \<open>2 ^ 32\<close> with the
  wrap-around written out.\<close>

definition add32 :: "nat \<Rightarrow> nat \<Rightarrow> nat" where
  "add32 x y = (x + y) mod 2 ^ 32"

definition rotl32 :: "nat \<Rightarrow> nat \<Rightarrow> nat" where
  "rotl32 n x = (x * 2 ^ n) mod 2 ^ 32 + x div 2 ^ (32 - n)"

definition not32 :: "nat \<Rightarrow> nat" where
  "not32 x = 0xFFFFFFFF - x"

definition be_bytes :: "nat \<Rightarrow> nat \<Rightarrow> nat list" where
  "be_bytes k n = map (\<lambda>i. (n div 2 ^ (8 * (k - 1 - i))) mod 256) [0..<k]"

definition sha1_pad :: "nat list \<Rightarrow> nat list" where
  "sha1_pad bs =
     bs @ [128] @ replicate ((119 - length bs mod 64) mod 64) 0
        @ be_bytes 8 ((8 * length bs) mod 2 ^ 64)"

fun be_words :: "nat list \<Rightarrow> nat list" where
  "be_words (a # b # c # d # bs) = (((a * 256 + b) * 256 + c) * 256 + d) # be_words bs"
| "be_words _ = []"

function sha1_schedule :: "nat list \<Rightarrow> nat list" where
  "sha1_schedule w =
     (if 80 \<le> length w then w
      else sha1_schedule
             (w @ [rotl32 1 (w ! (length w - 3) XOR w ! (length w - 8)
                             XOR w ! (length w - 14) XOR w ! (length w - 16))]))"
  by pat_completeness auto
termination
  by (relation "measure (\<lambda>w. 80 - length w)") auto

declare sha1_schedule.simps [simp del]

definition sha1_f :: "nat \<Rightarrow> nat \<Rightarrow> nat \<Rightarrow> nat \<Rightarrow> nat" where
  "sha1_f t b c d =
     (if t < 20 then (b AND c) OR (not32 b AND d)
      else if t < 40 then b XOR c XOR d
      else if t < 60 then (b AND c) OR (b AND d) OR (c AND d)
      else b XOR c XOR d)"

definition sha1_k :: "nat \<Rightarrow> nat" where
  "sha1_k t =
     (if t < 20 then 0x5A827999 else if t < 40 then 0x6ED9EBA1
      else if t < 60 then 0x8F1BBCDC else 0xCA62C1D6)"

type_synonym sha1_state = "nat \<times> nat \<times> nat \<times> nat \<times> nat"

fun sha1_rounds :: "nat \<Rightarrow> sha1_state \<Rightarrow> nat list \<Rightarrow> sha1_state" where
  "sha1_rounds t s [] = s"
| "sha1_rounds t (a, b, c, d, e) (w # ws) =
     sha1_rounds (t + 1)
       (add32 (add32 (add32 (add32 (rotl32 5 a) (sha1_f t b c d)) e) w) (sha1_k t),
        a, rotl32 30 b, c, d) ws"

fun sha1_block :: "sha1_state \<Rightarrow> nat list \<Rightarrow> sha1_state" where
  "sha1_block (h0, h1, h2, h3, h4) p =
     (case sha1_rounds 0 (h0, h1, h2, h3, h4) (sha1_schedule (be_words p)) of
        (a, b, c, d, e) \<Rightarrow> (add32 h0 a, add32 h1 b, add32 h2 c, add32 h3 d, add32 h4 e))"

function sha1_blocks :: "sha1_state \<Rightarrow> nat list \<Rightarrow> sha1_state" where
  "sha1_blocks h bs =
     (if length bs < 64 then h else sha1_blocks (sha1_block h (take 64 bs)) (drop 64 bs))"
  by pat_completeness auto
termination
  by (relation "measure (\<lambda>(h, bs). length bs)") auto

declare sha1_blocks.simps [simp del]

definition sha1_init :: sha1_state where
  "sha1_init = (0x67452301, 0xEFCDAB89, 0x98BADCFE, 0x10325476, 0xC3D2E1F0)"

text \<open>\<^verbatim>\<open>h := sha1.New(); io.WriteString(h, s); string(h.Sum(nil))\<close>: the 20 bytes of the
  digest, as a string.\<close>

definition sha1_Sum :: "string \<Rightarrow> string" where
  "sha1_Sum s =
     (case sha1_blocks sha1_init (sha1_pad (map byte s)) of
        (h0, h1, h2, h3, h4) \<Rightarrow>
          map char_of (concat (map (be_bytes 4) [h0, h1, h2, h3, h4])))"

section \<open>Errors\<close>

text \<open>A value of Go's interface type \<^verbatim>\<open>error\<close>: the sentinel \<^verbatim>\<open>io.EOF\<close>, an error made
  by \<^verbatim>\<open>errors.New\<close> with its message, or an error value of a type of the caller's own
  (the unspecified type \<open>caller_error\<close>). The nil error is \<^const>\<open>None\<close> of \<open>error option\<close>.\<close>

typedecl caller_error

datatype error = io_EOF | errors_New string | CallerError caller_error

section \<open>Conn: the stub registry\<close>

text \<open>\<^verbatim>\<open>driver.Rows\<close> is an interface: the type \<open>'r\<close> stands for its implementations, and
  \<^const>\<open>None\<close> for the nil interface value.\<close>

record 'r Query =
  result :: "'r option"
  err :: "error option"

record 'r Stmt =
  result :: "'r option"
  err :: "error option"

text \<open>A \<^verbatim>\<open>Conn\<close> as \<^verbatim>\<open>NewConn\<close> makes it and the methods change it: the map
  \<^verbatim>\<open>queries\<close> is never nil; \<^verbatim>\<open>queryFunc\<close> is nil (\<^const>\<open>None\<close>) or a function, which
  is taken to be a pure function of the query text.\<close>

record 'r Conn =
  queries :: "string \<rightharpoonup> 'r Query"
  queryFunc :: "(string \<Rightarrow> 'r option \<times> error option) option"

definition NewConn :: "'r Conn" where
  "NewConn = \<lparr>queries = Map.empty, queryFunc = None\<rparr>"

definition SetQueryFunc ::
  "'r Conn \<Rightarrow> (string \<Rightarrow> 'r option \<times> error option) option \<Rightarrow> 'r Conn" where
  "SetQueryFunc c f = c\<lparr>queryFunc := f\<rparr>"

text \<open>Line 61 of the source, the normalisation: remove whitespace, then lowercase.\<close>

definition normalizeQuery :: "(nat \<Rightarrow> nat) \<Rightarrow> string \<Rightarrow> string" where
  "normalizeQuery lowerCase query =
     ToLower lowerCase (whitespaceRegexp_ReplaceAllString query)"

definition getQueryHash :: "(nat \<Rightarrow> nat) \<Rightarrow> string \<Rightarrow> string" where
  "getQueryHash lowerCase query = sha1_Sum (normalizeQuery lowerCase query)"

definition StubQuery ::
  "(nat \<Rightarrow> nat) \<Rightarrow> 'r Conn \<Rightarrow> string \<Rightarrow> 'r option \<Rightarrow> 'r Conn" where
  "StubQuery lowerCase c query res =
     c\<lparr>queries := (queries c)(getQueryHash lowerCase query \<mapsto>
          \<lparr>Query.result = res, err = None\<rparr>)\<rparr>"

definition StubQueryError ::
  "(nat \<Rightarrow> nat) \<Rightarrow> 'r Conn \<Rightarrow> string \<Rightarrow> error option \<Rightarrow> 'r Conn" where
  "StubQueryError lowerCase c query e =
     c\<lparr>queries := (queries c)(getQueryHash lowerCase query \<mapsto>
          \<lparr>Query.result = None, err = e\<rparr>)\<rparr>"

text \<open>\<^verbatim>\<open>Prepare\<close> returns the address of a fresh \<^verbatim>\<open>Stmt\<close> in each of its three branches;
  the model returns the \<^verbatim>\<open>Stmt\<close> itself, paired with the error.\<close>

definition Prepare ::
  "(nat \<Rightarrow> nat) \<Rightarrow> 'r Conn \<Rightarrow> string \<Rightarrow> 'r Stmt \<times> error option" where
  "Prepare lowerCase c query =
     (case queryFunc c of
        Some f \<Rightarrow>
          (case f query of
             (res, e) \<Rightarrow> (\<lparr>Stmt.result = res, err = e\<rparr>, None))
      | None \<Rightarrow>
          (case queries c (getQueryHash lowerCase query) of
             Some q \<Rightarrow> (\<lparr>Stmt.result = Query.result q, err = Query.err q\<rparr>, None)
           | None \<Rightarrow>
               (\<lparr>Stmt.result = None, err = None\<rparr>,
                Some (errors_New (''Query not stubbed: '' @ query)))))"

definition Stmt_Query :: "'r Stmt \<Rightarrow> 'v list \<Rightarrow> 'r option \<times> error option" where
  "Stmt_Query s args = (Stmt.result s, Stmt.err s)"


section \<open>Registrations and edits of a query text\<close>

text \<open>A registration on a connection, as a value: the query text with the result of a
  \<^verbatim>\<open>StubQuery(query, result)\<close> or the error of a \<^verbatim>\<open>StubQueryError(query, err)\<close>; and a
  list of registrations made in order.\<close>

datatype 'r outcome = Outcome_Result "'r option" | Outcome_Error "error option"

fun register ::
  "(nat \<Rightarrow> nat) \<Rightarrow> 'r Conn \<Rightarrow> string \<times> 'r outcome \<Rightarrow> 'r Conn" where
  "register U c (query, Outcome_Result res) = StubQuery U c query res"
| "register U c (query, Outcome_Error e) = StubQueryError U c query e"

definition registerAll ::
  "(nat \<Rightarrow> nat) \<Rightarrow> 'r Conn \<Rightarrow> (string \<times> 'r outcome) list \<Rightarrow> 'r Conn" where
  "registerAll U c regs = foldl (register U) c regs"

text \<open>One edit of a query text. A character of the class \<^verbatim>\<open>\s\<close> is inserted or removed
  anywhere (\<open>space_edit\<close>). Or a letter changes its case (\<open>case_edit\<close>): an ASCII letter
  becomes the same letter of the other case; or any character becomes another with the same
  lower-case mapping under \<^verbatim>\<open>unicode.ToLower\<close>, both of them valid code points in their
  UTF-8 encoding and neither of the class \<^verbatim>\<open>\s\<close>. The text around the edited character is
  any sequence of bytes.\<close>

definition isLetter :: "char \<Rightarrow> bool" where
  "isLetter c = ((65 \<le> byte c \<and> byte c \<le> 90) \<or> (97 \<le> byte c \<and> byte c \<le> 122))"

definition swapCase :: "char \<Rightarrow> char" where
  "swapCase c =
     (if 65 \<le> byte c \<and> byte c \<le> 90 then char_of (byte c + 32)
      else if 97 \<le> byte c \<and> byte c \<le> 122 then char_of (byte c - 32)
      else c)"

definition isReSpaceRune :: "nat \<Rightarrow> bool" where
  "isReSpaceRune r = (r = 9 \<or> r = 10 \<or> r = 12 \<or> r = 13 \<or> r = 32)"

inductive space_edit :: "string \<Rightarrow> string \<Rightarrow> bool" where
  insert_space: "isReSpace c \<Longrightarrow> space_edit (xs @ ys) (xs @ c # ys)"
| remove_space: "isReSpace c \<Longrightarrow> space_edit (xs @ c # ys) (xs @ ys)"

inductive case_edit :: "(nat \<Rightarrow> nat) \<Rightarrow> string \<Rightarrow> string \<Rightarrow> bool" for lowerCase where
  change_case: "isLetter c \<Longrightarrow> case_edit lowerCase (xs @ c # ys) (xs @ swapCase c # ys)"
| change_rune:
    "ValidRune r \<Longrightarrow> ValidRune r' \<Longrightarrow> \<not> isReSpaceRune r \<Longrightarrow> \<not> isReSpaceRune r' \<Longrightarrow>
     unicode_ToLower lowerCase r = unicode_ToLower lowerCase r' \<Longrightarrow>
     case_edit lowerCase (xs @ EncodeRune r @ ys) (xs @ EncodeRune r' @ ys)"

definition edit :: "(nat \<Rightarrow> nat) \<Rightarrow> string \<Rightarrow> string \<Rightarrow> bool" where
  "edit lowerCase q q' = (space_edit q q' \<or> case_edit lowerCase q q')"

text \<open>A string that does not start with a continuation byte of UTF-8: the runes of a string
  are not changed by what follows it when that starts so.\<close>

definition boundary :: "string \<Rightarrow> bool" where
  "boundary t = (case t of [] \<Rightarrow> True | c # s \<Rightarrow> byte c < 0x80 \<or> 0xBF < byte c)"

section \<open>Rows: the row source\<close>

text \<open>A \<^verbatim>\<open>driver.Value\<close> held by a \<^verbatim>\<open>Rows\<close>: nil (a cell never assigned), a
  string, or a \<^verbatim>\<open>time.Time\<close>. A \<^verbatim>\<open>time.Time\<close> is a time in UTC, given by its calendar
  fields.\<close>

record Time =
  year :: nat
  month :: nat
  day :: nat
  hour :: nat
  minute :: nat
  second :: nat

datatype Value = Value_nil | Value_string string | Value_time Time

text \<open>A run-time panic of Go: an index out of range, with the index and the length.\<close>

datatype panic = IndexOutOfRange int nat

text \<open>The struct \<^verbatim>\<open>Rows\<close>. The field \<^verbatim>\<open>pos\<close> is a Go \<^verbatim>\<open>int\<close>: a signed machine
  integer of 32 or of 64 bits, by the platform. It is a word of the width \<open>'w\<close>, read as a
  signed number by \<^const>\<open>sint\<close>; the addition of words wraps around, as \<^verbatim>\<open>rs.pos++\<close> does.\<close>

record (overloaded) 'w Rows =
  closed :: bool
  columns :: "string list"
  rows :: "Value list list"
  pos :: "'w::len word"

text \<open>The largest and the smallest value of an \<^verbatim>\<open>int\<close> of the width \<open>'w\<close>
  (\<^verbatim>\<open>math.MaxInt\<close>, \<^verbatim>\<open>math.MinInt\<close>).\<close>

definition MaxInt :: "'w::len word" where
  "MaxInt = word_of_int (2 ^ (LENGTH('w) - 1) - 1)"

definition MinInt :: "'w::len word" where
  "MinInt = word_of_int (- (2 ^ (LENGTH('w) - 1)))"

text \<open>\<^verbatim>\<open>for i, col := range rs.rows[rs.pos-1] { dest[i] = col }\<close>: the assignment panics at
  the first index that \<^verbatim>\<open>dest\<close> does not have; the cells before it have been copied.\<close>

fun copyRow :: "nat \<Rightarrow> Value list \<Rightarrow> Value list \<Rightarrow> panic option \<times> Value list" where
  "copyRow i [] dest = (None, dest)"
| "copyRow i (col # cols) dest =
     (if i < length dest then copyRow (i + 1) cols (dest[i := col])
      else (Some (IndexOutOfRange (int i) (length dest)), dest))"

text \<open>\<^verbatim>\<open>Next\<close> returns its error (or panics), and leaves the \<^verbatim>\<open>Rows\<close> and the
  destination buffer changed in place: the model returns all three. The increment wraps; the
  comparison with \<^verbatim>\<open>len(rs.rows)\<close> is one of signed integers; \<^verbatim>\<open>rs.rows[rs.pos-1]\<close> panics
  when the index, itself computed with wrap-around, is negative or not below the length.\<close>

definition Next ::
  "'w::len Rows \<Rightarrow> Value list \<Rightarrow> (panic + error option) \<times> 'w Rows \<times> Value list" where
  "Next rs dest =
     (let rs1 = rs\<lparr>pos := pos rs + 1\<rparr>
      in if sint (pos rs1) > int (length (rows rs1))
         then (Inr (Some io_EOF), rs1\<lparr>closed := True\<rparr>, dest)
         else let i = sint (pos rs1 - 1)
              in if i < 0 \<or> int (length (rows rs1)) \<le> i
                 then (Inl (IndexOutOfRange i (length (rows rs1))), rs1, dest)
                 else (case copyRow 0 (rows rs1 ! nat i) dest of
                         (Some p, dest') \<Rightarrow> (Inl p, rs1, dest')
                       | (None, dest') \<Rightarrow> (Inr None, rs1, dest')))"

definition Rows_Err :: "'w::len Rows \<Rightarrow> error option" where
  "Rows_Err rs = None"

definition Columns :: "'w::len Rows \<Rightarrow> string list" where
  "Columns rs = columns rs"

definition Rows_Close :: "'w::len Rows \<Rightarrow> error option" where
  "Rows_Close rs = None"

text \<open>A consumer's loop: one call of \<^verbatim>\<open>Next\<close> for each destination buffer of a list, in
  order. Each call gives its result and the buffer as the call left it.\<close>

fun Next_each ::
  "'w::len Rows \<Rightarrow> Value list list \<Rightarrow> ((panic + error option) \<times> Value list) list \<times> 'w Rows" where
  "Next_each rs [] = ([], rs)"
| "Next_each rs (dest # dests) =
     (case Next rs dest of
        (r, rs1, dest1) \<Rightarrow>
          (case Next_each rs1 dests of
             (out, rs2) \<Rightarrow> ((r, dest1) # out, rs2)))"

text \<open>The four methods of a \<^verbatim>\<open>Rows\<close>, as calls, and the \<^verbatim>\<open>Rows\<close> after a call:
  only \<^verbatim>\<open>Next\<close> assigns to its fields.\<close>

datatype rows_call = Call_Next "Value list" | Call_Columns | Call_Close | Call_Err

fun call :: "'w::len Rows \<Rightarrow> rows_call \<Rightarrow> 'w Rows" where
  "call rs (Call_Next dest) = fst (snd (Next rs dest))"
| "call rs Call_Columns = rs"
| "call rs Call_Close = rs"
| "call rs Call_Err = rs"

text \<open>The number of calls of \<^verbatim>\<open>Next\<close> in a sequence of calls.\<close>

fun isNext :: "rows_call \<Rightarrow> bool" where
  "isNext (Call_Next dest) = True"
| "isNext c = False"

definition Next_calls :: "rows_call list \<Rightarrow> nat" where
  "Next_calls cs = length (filter isNext cs)"

text \<open>The state after the last row: the cursor is past the rows and the flag is set.\<close>

definition exhausted :: "'w::len Rows \<Rightarrow> bool" where
  "exhausted rs = (sint (pos rs) > int (length (rows rs)) \<and> closed rs)"


section \<open>RowsFromCSVString\<close>

subsection \<open>strings.TrimSpace\<close>

text \<open>The white space of \<^verbatim>\<open>unicode.IsSpace\<close>, each character in its UTF-8 encoding: the six
  ASCII characters tab, newline, vertical tab, form feed, carriage return and space, then U+0085,
  U+00A0, U+1680, U+2000 to U+200A, U+2028, U+2029, U+202F, U+205F and U+3000.\<close>

definition isSpace :: "string \<Rightarrow> bool" where
  "isSpace r =
     (case map byte r of
        [b] \<Rightarrow> b = 9 \<or> b = 10 \<or> b = 11 \<or> b = 12 \<or> b = 13 \<or> b = 32
      | [b1, b2] \<Rightarrow> b1 = 0xC2 \<and> (b2 = 0x85 \<or> b2 = 0xA0)
      | [b1, b2, b3] \<Rightarrow>
          (b1 = 0xE1 \<and> b2 = 0x9A \<and> b3 = 0x80)
        \<or> (b1 = 0xE2 \<and> b2 = 0x80 \<and> (0x80 \<le> b3 \<and> b3 \<le> 0x8A \<or> b3 = 0xA8 \<or> b3 = 0xA9 \<or> b3 = 0xAF))
        \<or> (b1 = 0xE2 \<and> b2 = 0x81 \<and> b3 = 0x9F)
        \<or> (b1 = 0xE3 \<and> b2 = 0x80 \<and> b3 = 0x80)
      | _ \<Rightarrow> False)"

text \<open>The number of bytes of the white-space character a string starts with, or ends with;
  0 when there is none.\<close>

definition leadingSpace :: "string \<Rightarrow> nat" where
  "leadingSpace s =
     (if isSpace (take 1 s) then 1 else if isSpace (take 2 s) then 2
      else if isSpace (take 3 s) then 3 else 0)"

definition trailingSpace :: "string \<Rightarrow> nat" where
  "trailingSpace s =
     (if isSpace (drop (length s - 1) s) then 1 else if isSpace (drop (length s - 2) s) then 2
      else if isSpace (drop (length s - 3) s) then 3 else 0)"

lemma isSpace_length: "isSpace r \<Longrightarrow> 0 < length r"
  by (cases r) (simp_all add: isSpace_def)

lemma leadingSpace_le: "leadingSpace s \<le> length s"
  using isSpace_length [of "take 1 s"] isSpace_length [of "take 2 s"]
    isSpace_length [of "take 3 s"]
  by (cases s; cases "tl s"; cases "tl (tl s)") (auto simp: leadingSpace_def isSpace_def)

lemma trailingSpace_le: "trailingSpace s \<le> length s"
  by (cases "rev s"; cases "tl (rev s)"; cases "tl (tl (rev s))")
    (auto simp: trailingSpace_def isSpace_def)

lemma leadingSpace_drop:
  "0 < leadingSpace s \<Longrightarrow> length s - leadingSpace s < length s"
  using leadingSpace_le [of s] by arith

lemma trailingSpace_take:
  "0 < trailingSpace s \<Longrightarrow> length s - trailingSpace s < length s"
  using trailingSpace_le [of s] by arith

function TrimLeft :: "string \<Rightarrow> string" where
  "TrimLeft s = (if leadingSpace s = 0 then s else TrimLeft (drop (leadingSpace s) s))"
  by pat_completeness auto
termination
  by (relation "measure length") (simp_all add: leadingSpace_drop)

function TrimRight :: "string \<Rightarrow> string" where
  "TrimRight s =
     (if trailingSpace s = 0 then s else TrimRight (take (length s - trailingSpace s) s))"
  by pat_completeness auto
termination
  by (relation "measure length") (simp_all add: trailingSpace_take)

declare TrimLeft.simps [simp del] TrimRight.simps [simp del]

definition TrimSpace :: "string \<Rightarrow> string" where
  "TrimSpace s = TrimRight (TrimLeft s)"


subsection \<open>timeRegex and time.Parse\<close>

text \<open>\<^verbatim>\<open>timeRegex = ^\d{4}-\d{2}-\d{2}(\s\d{2}:\d{2}:\d{2})?$\<close>. A pattern is a list of
  character classes, each matching one byte; the regular expression matches a string that is
  the date pattern, or the date pattern followed by the time pattern, from its first byte to
  its last.\<close>

datatype char_class = Digit | Space | Literal char

fun matchClass :: "char_class \<Rightarrow> char \<Rightarrow> bool" where
  "matchClass Digit c = isDigit c"
| "matchClass Space c = isReSpace c"
| "matchClass (Literal l) c = (c = l)"

fun matchAll :: "char_class list \<Rightarrow> string \<Rightarrow> bool" where
  "matchAll [] [] = True"
| "matchAll (p # ps) (c # cs) = (matchClass p c \<and> matchAll ps cs)"
| "matchAll _ _ = False"

definition datePattern :: "char_class list" where
  "datePattern =
     [Digit, Digit, Digit, Digit, Literal (CHR ''-''), Digit, Digit, Literal (CHR ''-''),
      Digit, Digit]"

definition timePattern :: "char_class list" where
  "timePattern =
     [Space, Digit, Digit, Literal (CHR '':''), Digit, Digit, Literal (CHR '':''), Digit, Digit]"

definition timeRegex_MatchString :: "string \<Rightarrow> bool" where
  "timeRegex_MatchString v = (matchAll datePattern v \<or> matchAll (datePattern @ timePattern) v)"

text \<open>A \<^verbatim>\<open>time.Time\<close> in UTC, by its calendar fields. The zero value \<^verbatim>\<open>time.Time{}\<close> is
  January 1 of year 1, 00:00:00 UTC.\<close>

definition zeroTime :: Time where
  "zeroTime = \<lparr>year = 1, month = 1, day = 1, hour = 0, minute = 0, second = 0\<rparr>"

datatype parse_error = errBad | errRange | errExtraText

definition digitVal :: "char \<Rightarrow> nat" where
  "digitVal c = byte c - 48"

text \<open>\<^verbatim>\<open>getnum(s, fixed)\<close> of package time: one or two leading digits, two when \<open>fixed\<close>.\<close>

fun getnum :: "string \<Rightarrow> bool \<Rightarrow> parse_error + nat \<times> string" where
  "getnum [] fixed = Inl errBad"
| "getnum [c] fixed =
     (if \<not> isDigit c \<or> fixed then Inl errBad else Inr (digitVal c, []))"
| "getnum (c # d # s) fixed =
     (if \<not> isDigit c then Inl errBad
      else if \<not> isDigit d then (if fixed then Inl errBad else Inr (digitVal c, d # s))
      else Inr (digitVal c * 10 + digitVal d, s))"

text \<open>The layout element \<^verbatim>\<open>2006\<close>: four bytes, all digits.\<close>

definition getyear :: "string \<Rightarrow> parse_error + nat \<times> string" where
  "getyear s =
     (if length s < 4 \<or> \<not> list_all isDigit (take 4 s) then Inl errBad
      else Inr (foldl (\<lambda>n c. n * 10 + digitVal c) 0 (take 4 s), drop 4 s))"

text \<open>\<^verbatim>\<open>skip(value, prefix)\<close> of package time, for a prefix of one byte: a space of the
  layout matches any number of spaces of the value (none at its end only), any other byte
  matches itself.\<close>

definition skip :: "string \<Rightarrow> char \<Rightarrow> parse_error + string" where
  "skip s p =
     (if p = CHR '' '' then
        (if s \<noteq> [] \<and> hd s \<noteq> CHR '' '' then Inl errBad
         else Inr (dropWhile (\<lambda>c. c = CHR '' '') s))
      else if s = [] \<or> hd s \<noteq> p then Inl errBad
      else Inr (tl s))"

definition isLeap :: "nat \<Rightarrow> bool" where
  "isLeap y = (y mod 4 = 0 \<and> (y mod 100 \<noteq> 0 \<or> y mod 400 = 0))"

definition daysIn :: "nat \<Rightarrow> nat \<Rightarrow> nat" where
  "daysIn m y =
     (if m = 2 then (if isLeap y then 29 else 28)
      else if m = 4 \<or> m = 6 \<or> m = 9 \<or> m = 11 then 30 else 31)"

definition bindE :: "'e + 'a \<Rightarrow> ('a \<Rightarrow> 'e + 'b) \<Rightarrow> 'e + 'b" where
  "bindE m f = (case m of Inl e \<Rightarrow> Inl e | Inr x \<Rightarrow> f x)"

text \<open>\<^verbatim>\<open>time.Parse("2006-01-02 15:04:05", value)\<close>: the elements of the layout are read from
  the value one after the other, each range is checked where the library checks it, text left
  over is an error, and the day is checked against the month at the end. (The library also
  accepts a fractional second after the seconds; a value that matches \<^verbatim>\<open>timeRegex\<close> ends
  with the seconds, so this is left out here.) The result is the pair that Go returns: the
  time and a nil error, or the zero time and the error.\<close>

definition parseLayout :: "string \<Rightarrow> parse_error + Time" where
  "parseLayout value =
     bindE (getyear value) (\<lambda>(y, v1).
     bindE (skip v1 (CHR ''-'')) (\<lambda>v2.
     bindE (getnum v2 True) (\<lambda>(mo, v3).
     if mo \<le> 0 \<or> 12 < mo then Inl errRange else
     bindE (skip v3 (CHR ''-'')) (\<lambda>v4.
     bindE (getnum v4 True) (\<lambda>(d, v5).
     bindE (skip v5 (CHR '' '')) (\<lambda>v6.
     bindE (getnum v6 False) (\<lambda>(h, v7).
     if 24 \<le> h then Inl errRange else
     bindE (skip v7 (CHR '':'')) (\<lambda>v8.
     bindE (getnum v8 True) (\<lambda>(mi, v9).
     if 60 \<le> mi then Inl errRange else
     bindE (skip v9 (CHR '':'')) (\<lambda>v10.
     bindE (getnum v10 True) (\<lambda>(sec, v11).
     if 60 \<le> sec then Inl errRange
     else if v11 \<noteq> [] then Inl errExtraText
     else if d < 1 \<or> daysIn mo y < d then Inl errRange
     else Inr \<lparr>year = y, month = mo, day = d, hour = h, minute = mi, second = sec\<rparr>)))))))))))"

definition time_Parse :: "string \<Rightarrow> Time \<times> parse_error option" where
  "time_Parse value =
     (case parseLayout value of Inl e \<Rightarrow> (zeroTime, Some e) | Inr t \<Rightarrow> (t, None))"

subsection \<open>encoding/csv\<close>

text \<open>A \<^verbatim>\<open>csv.Reader\<close> with the settings \<^verbatim>\<open>csv.NewReader\<close> gives it: the separator is a
  comma, there is no comment character, quotes are strict, leading space is kept, and the
  number of fields of the first record is required of every later record.\<close>

datatype read_error = EOF | ErrBareQuote | ErrQuote | ErrFieldCount

definition comma :: char where
  "comma = CHR '',''"

definition quote :: char where
  "quote = CHR 0x22"

definition newline :: char where
  "newline = CHR 0x0A"

definition carriageReturn :: char where
  "carriageReturn = CHR 0x0D"

text \<open>\<^verbatim>\<open>readLine\<close>: the input up to and with the next newline; a carriage return before the
  newline is dropped, and so is one that ends the input. The lines of the whole input:\<close>

definition endOfLine :: "string \<Rightarrow> string" where
  "endOfLine line =
     (if line \<noteq> [] \<and> last line = carriageReturn then butlast line @ [newline]
      else line @ [newline])"

definition endOfInput :: "string \<Rightarrow> string" where
  "endOfInput line = (if line \<noteq> [] \<and> last line = carriageReturn then butlast line else line)"

fun readLines :: "string \<Rightarrow> string \<Rightarrow> string list" where
  "readLines line [] = (if line = [] then [] else [endOfInput line])"
| "readLines line (c # cs) =
     (if c = newline then endOfLine line # readLines [] cs else readLines (line @ [c]) cs)"

record csvReader =
  lines :: "string list"
  FieldsPerRecord :: nat

definition csv_NewReader :: "string \<Rightarrow> csvReader" where
  "csv_NewReader s = \<lparr>lines = readLines [] s, FieldsPerRecord = 0\<rparr>"

text \<open>\<^verbatim>\<open>i := bytes.IndexByte(line, sep)\<close>, then \<^verbatim>\<open>line[:i]\<close> and \<^verbatim>\<open>line[i+1:]\<close>.\<close>

definition cut :: "char \<Rightarrow> string \<Rightarrow> (string \<times> string) option" where
  "cut sep line =
     (case dropWhile (\<lambda>c. c \<noteq> sep) line of
        [] \<Rightarrow> None
      | _ # after \<Rightarrow> Some (takeWhile (\<lambda>c. c \<noteq> sep) line, after))"

definition dropNL :: "string \<Rightarrow> string" where
  "dropNL line = (if line \<noteq> [] \<and> last line = newline then butlast line else line)"

lemma cut_shorter: "cut sep line = Some (field, after) \<Longrightarrow> length after < length line"
proof -
  assume a: "cut sep line = Some (field, after)"
  then have "dropWhile (\<lambda>c. c \<noteq> sep) line = hd (dropWhile (\<lambda>c. c \<noteq> sep) line) # after"
    by (auto simp: cut_def split: list.splits)
  then have "length after < length (dropWhile (\<lambda>c. c \<noteq> sep) line)"
    by (metis length_Cons lessI)
  then show ?thesis
    using length_dropWhile_le [of "\<lambda>c. c \<noteq> sep" line] by simp
qed

text \<open>The fields of one record, from the line that starts it (\<^verbatim>\<open>readRecord\<close>). A quoted
  field can run over the following lines; the result has the fields that were completed, the
  error, and the lines not read.\<close>

function parseField :: "string \<Rightarrow> string list \<Rightarrow> string list \<times> read_error option \<times> string list"
  and parseQuoted ::
    "string \<Rightarrow> string \<Rightarrow> string list \<Rightarrow> string list \<times> read_error option \<times> string list"
  where
  "parseField line rest =
     (if line = [] \<or> hd line \<noteq> quote then
        (case cut comma line of
           None \<Rightarrow>
             (if quote \<in> set (dropNL line) then ([], Some ErrBareQuote, rest)
              else ([dropNL line], None, rest))
         | Some (field, after) \<Rightarrow>
             (if quote \<in> set field then ([], Some ErrBareQuote, rest)
              else (case parseField after rest of
                      (fs, e, rest') \<Rightarrow> (field # fs, e, rest'))))
      else parseQuoted [] (tl line) rest)"
| "parseQuoted buf line rest =
     (case cut quote line of
        Some (pre, line') \<Rightarrow>
          (case line' of
             [] \<Rightarrow> ([buf @ pre], None, rest)
           | c # cs \<Rightarrow>
               (if c = quote then parseQuoted (buf @ pre @ [quote]) cs rest
                else if c = comma then
                  (case parseField cs rest of
                     (fs, e, rest') \<Rightarrow> ((buf @ pre) # fs, e, rest'))
                else if line' = [newline] then ([buf @ pre], None, rest)
                else ([], Some ErrQuote, rest)))
      | None \<Rightarrow>
          (if line \<noteq> [] then
             (case rest of
                [] \<Rightarrow> parseQuoted (buf @ line) [] []
              | l # ls \<Rightarrow> parseQuoted (buf @ line) l ls)
           else ([], Some ErrQuote, rest)))"
  by pat_completeness auto
termination
  by (relation "inv_image (less_than <*lex*> less_than)
        (\<lambda>x. case x of Inl (line, rest) \<Rightarrow> (length rest, length line)
                     | Inr (buf, line, rest) \<Rightarrow> (length rest, length line))")
    (auto dest: cut_shorter)

declare parseField.simps [simp del] parseQuoted.simps [simp del]


lemma parse_rest_le:
  "length (snd (snd (parseField line rest))) \<le> length rest"
  "length (snd (snd (parseQuoted buf line rest))) \<le> length rest"
proof (induction line rest and buf line rest rule: parseField_parseQuoted.induct)
  case (1 line rest)
  show ?case
  proof (cases "line = [] \<or> hd line \<noteq> quote")
    case unquoted: True
    show ?thesis
    proof (cases "cut comma line")
      case None
      with unquoted show ?thesis
        by (subst parseField.simps) simp
    next
      case (Some fa)
      obtain field after where fa: "fa = (field, after)"
        by (cases fa)
      show ?thesis
      proof (cases "quote \<in> set field")
        case True
        with unquoted Some fa show ?thesis
          by (subst parseField.simps) simp
      next
        case False
        have "length (snd (snd (parseField after rest))) \<le> length rest"
          using "1.IH" unquoted Some False fa by simp
        with unquoted Some fa False show ?thesis
          by (subst parseField.simps) (auto split: prod.splits)
      qed
    qed
  next
    case quoted: False
    have "length (snd (snd (parseQuoted [] (tl line) rest))) \<le> length rest"
      using "1.IH" quoted by simp
    with quoted show ?thesis
      by (subst parseField.simps) simp
  qed
next
  case (2 buf line rest)
  show ?case
  proof (cases "cut quote line")
    case None
    show ?thesis
    proof (cases "line = []")
      case True
      with None show ?thesis
        by (subst parseQuoted.simps) simp
    next
      case nonempty: False
      show ?thesis
      proof (cases rest)
        case Nil
        have "length (snd (snd (parseQuoted (buf @ line) [] []))) \<le> length ([] :: string list)"
          using "2.IH" None nonempty Nil by simp
        with None nonempty Nil show ?thesis
          by (subst parseQuoted.simps) simp
      next
        case (Cons l ls)
        have "length (snd (snd (parseQuoted (buf @ line) l ls))) \<le> length ls"
          using "2.IH" None nonempty Cons by simp
        with None nonempty Cons show ?thesis
          by (subst parseQuoted.simps) simp
      qed
    qed
  next
    case (Some pl)
    obtain pre line' where pl: "pl = (pre, line')"
      by (cases pl)
    show ?thesis
    proof (cases line')
      case Nil
      with Some pl show ?thesis
        by (subst parseQuoted.simps) simp
    next
      case (Cons c cs)
      consider (q) "c = quote" | (c) "c \<noteq> quote" "c = comma" | (o) "c \<noteq> quote" "c \<noteq> comma"
        by blast
      then show ?thesis
      proof cases
        case q
        have "length (snd (snd (parseQuoted (buf @ pre @ [quote]) cs rest))) \<le> length rest"
          using "2.IH" Some Cons q pl by simp
        with Some pl Cons q show ?thesis
          by (subst parseQuoted.simps) simp
      next
        case c
        have "length (snd (snd (parseField cs rest))) \<le> length rest"
          using "2.IH" Some Cons c pl by simp
        with Some pl Cons c show ?thesis
          by (subst parseQuoted.simps) (auto split: prod.splits)
      next
        case o
        with Some pl Cons show ?thesis
          by (subst parseQuoted.simps) simp
      qed
    qed
  qed
qed

text \<open>A line that \<^verbatim>\<open>readRecord\<close> skips: it is empty or only a newline.\<close>

definition isBlank :: "string \<Rightarrow> bool" where
  "isBlank line = (line = [] \<or> line = [newline])"

text \<open>\<^verbatim>\<open>csvReader.Read()\<close>: the record (nil is \<^const>\<open>None\<close>), the error, and the reader
  after the call. At the end of the input the record is nil and the error is \<^verbatim>\<open>io.EOF\<close>.\<close>

definition csv_Read :: "csvReader \<Rightarrow> (string list option \<times> read_error option) \<times> csvReader" where
  "csv_Read r =
     (case dropWhile isBlank (lines r) of
        [] \<Rightarrow> ((None, Some EOF), r\<lparr>lines := []\<rparr>)
      | line # rest \<Rightarrow>
          (case parseField line rest of
             (fs, e, rest') \<Rightarrow>
               ((if fs = [] then None else Some fs,
                 if 0 < FieldsPerRecord r \<and> length fs \<noteq> FieldsPerRecord r \<and> e = None
                 then Some ErrFieldCount else e),
                \<lparr>lines = rest',
                 FieldsPerRecord =
                   (if FieldsPerRecord r = 0 then length fs else FieldsPerRecord r)\<rparr>)))"

lemma csv_Read_shorter:
  assumes "csv_Read r = ((rec, None), r')"
  shows "length (lines r') < length (lines r)"
proof (cases "dropWhile isBlank (lines r)")
  case Nil
  with assms show ?thesis
    by (simp add: csv_Read_def)
next
  case (Cons line rest)
  obtain fs e rest' where p: "parseField line rest = (fs, e, rest')"
    by (cases "parseField line rest")
  with assms Cons have "lines r' = rest'"
    by (auto simp: csv_Read_def)
  moreover have "length rest' \<le> length rest"
    using parse_rest_le(1) [of line rest] p by simp
  moreover have "length (dropWhile isBlank (lines r)) \<le> length (lines r)"
    by (rule length_dropWhile_le)
  ultimately show ?thesis
    using Cons by simp
qed

subsection \<open>The conversion\<close>

text \<open>The body of the inner loop: the cell is trimmed; a cell that matches \<^verbatim>\<open>timeRegex\<close>
  becomes the time that \<^verbatim>\<open>time.Parse\<close> returns, whose error is dropped
  (\<^verbatim>\<open>t, _ := time.Parse(...)\<close>); any other cell stays a string.\<close>

definition cellValue :: "string \<Rightarrow> Value" where
  "cellValue v0 =
     (let v = TrimSpace v0
      in if timeRegex_MatchString v then Value_time (fst (time_Parse v)) else Value_string v)"

text \<open>\<^verbatim>\<open>for i, v := range r { ... row[i] = ... }\<close>: the assignment panics when the record
  has more fields than the row has cells.\<close>

fun fillRow :: "nat \<Rightarrow> string list \<Rightarrow> Value list \<Rightarrow> panic + Value list" where
  "fillRow i [] row = Inr row"
| "fillRow i (v # vs) row =
     (if i < length row then fillRow (i + 1) vs (row[i := cellValue v])
      else Inl (IndexOutOfRange (int i) (length row)))"

function readLoop :: "csvReader \<Rightarrow> 'w::len Rows \<Rightarrow> panic + 'w Rows" where
  "readLoop csvReader rs =
     (case csv_Read csvReader of
        ((r, e), csvReader') \<Rightarrow>
          (if e \<noteq> None \<or> r = None then Inr rs
           else
             (case fillRow 0 (the r) (replicate (length (columns rs)) Value_nil) of
                Inl p \<Rightarrow> Inl p
              | Inr row \<Rightarrow> readLoop csvReader' (rs\<lparr>rows := rows rs @ [row]\<rparr>))))"
  by pat_completeness auto
termination
  by (relation "measure (\<lambda>(csvReader, rs). length (lines csvReader))")
    (auto dest: csv_Read_shorter [OF sym])

declare readLoop.simps [simp del]

definition RowsFromCSVString :: "string list \<Rightarrow> string \<Rightarrow> panic + 'w::len Rows" where
  "RowsFromCSVString cols s =
     readLoop (csv_NewReader (TrimSpace s))
       \<lparr>closed = False, columns = cols, rows = [], pos = 0\<rparr>"

subsection \<open>The records read before the loop stops\<close>

text \<open>The records that the successive calls of \<^verbatim>\<open>Read\<close> return before the first call that
  returns an error or a nil record, and the row that the loop body makes of a record of at
  most \<open>n\<close> fields: its cells, then nil up to the \<open>n\<close> columns.\<close>

function goodRecords :: "csvReader \<Rightarrow> string list list" where
  "goodRecords csvReader =
     (case csv_Read csvReader of
        ((r, e), csvReader') \<Rightarrow>
          (if e \<noteq> None \<or> r = None then [] else the r # goodRecords csvReader'))"
  by pat_completeness auto
termination
  by (relation "measure (\<lambda>csvReader. length (lines csvReader))")
    (auto dest: csv_Read_shorter [OF sym])

declare goodRecords.simps [simp del]

definition rowOf :: "nat \<Rightarrow> string list \<Rightarrow> Value list" where
  "rowOf n r = map cellValue r @ replicate (n - length r) Value_nil"


section \<open>Properties of the query key\<close>

lemma byte_char_of [simp]: "n < 256 \<Longrightarrow> byte (char_of n) = n"
  by (simp add: byte_def)

lemma char_of_byte [simp]: "char_of (byte c) = c"
  by (simp add: byte_def)

lemma byte_less_256 [simp]: "byte c < 256"
  by (simp add: byte_def)

lemma isASCII_append [simp]: "isASCII (xs @ ys) = (isASCII xs \<and> isASCII ys)"
  by (simp add: isASCII_def)

lemma isASCII_Nil [simp]: "isASCII []"
  by (simp add: isASCII_def)

lemma isASCII_Cons [simp]: "isASCII (c # cs) = (byte c < 128 \<and> isASCII cs)"
  by (simp add: isASCII_def)

lemma runes_Nil [simp]: "runes [] = []"
  by (simp add: runes.simps)

lemma runes_Cons:
  "runes (c # s) =
     fst (DecodeRuneInString (c # s)) # runes (drop (snd (DecodeRuneInString (c # s))) (c # s))"
  by (subst runes.simps) simp

lemma DecodeRuneInString_ASCII: "byte c < 128 \<Longrightarrow> DecodeRuneInString (c # s) = (byte c, 1)"
  by (simp add: DecodeRuneInString_def firstSize_def)

lemma runes_ASCII_Cons: "byte c < 128 \<Longrightarrow> runes (c # s) = byte c # runes s"
  by (simp add: runes_Cons DecodeRuneInString_ASCII)

lemma runes_ASCII: "isASCII s \<Longrightarrow> runes s = map byte s"
  by (induction s) (simp_all add: runes_ASCII_Cons)

lemma EncodeRune_ToLower_ASCII:
  "byte c < 128 \<Longrightarrow> EncodeRune (unicode_ToLower lowerCase (byte c)) = [lowerASCII c]"
  by (simp add: EncodeRune_def unicode_ToLower_def lowerASCII_def)

lemma strings_Map_ASCII:
  "isASCII s \<Longrightarrow> strings_Map (unicode_ToLower lowerCase) s = map lowerASCII s"
  by (induction s) (simp_all add: strings_Map_def runes_ASCII_Cons EncodeRune_ToLower_ASCII)

lemma ToLower_Map: "ToLower lowerCase s = strings_Map (unicode_ToLower lowerCase) s"
  by (simp add: ToLower_def strings_Map_ASCII)


lemma accept_range: "0x80 \<le> acceptLo s0" "acceptHi s0 \<le> 0xBF"
  by (simp_all add: acceptLo_def acceptHi_def)

lemma not_accepted:
  "byte c < 0x80 \<or> 0xBF < byte c \<Longrightarrow> byte c < acceptLo s0 \<or> acceptHi s0 < byte c"
  using accept_range [of s0] by auto

lemma firstSize_cases: "firstSize s0 = 0 \<or> firstSize s0 = 1 \<or> firstSize s0 = 2 \<or> firstSize s0 = 3 \<or> firstSize s0 = 4"
  by (simp add: firstSize_def)

lemma DecodeRuneInString_append1:
  assumes "boundary t"
  shows "DecodeRuneInString ([a] @ t) = DecodeRuneInString [a]"
proof (cases t)
  case Nil
  then show ?thesis by simp
next
  case (Cons h t')
  then have "byte h < acceptLo (byte a) \<or> acceptHi (byte a) < byte h"
    using assms by (intro not_accepted) (simp add: boundary_def)
  then show ?thesis
    using firstSize_cases [of "byte a"] by (auto simp: Cons DecodeRuneInString_def Let_def)
qed

lemma DecodeRuneInString_append2:
  assumes "boundary t"
  shows "DecodeRuneInString ([a, b] @ t) = DecodeRuneInString [a, b]"
proof (cases t)
  case Nil
  then show ?thesis by simp
next
  case (Cons h t')
  then have "byte h < 0x80 \<or> 0xBF < byte h"
    using assms by (simp add: boundary_def)
  then show ?thesis
    using firstSize_cases [of "byte a"] by (auto simp: Cons DecodeRuneInString_def Let_def)
qed

lemma DecodeRuneInString_append3:
  assumes "boundary t"
  shows "DecodeRuneInString ([a, b, c] @ t) = DecodeRuneInString [a, b, c]"
proof (cases t)
  case Nil
  then show ?thesis by simp
next
  case (Cons h t')
  then have "byte h < 0x80 \<or> 0xBF < byte h"
    using assms by (simp add: boundary_def)
  then show ?thesis
    using firstSize_cases [of "byte a"] by (auto simp: Cons DecodeRuneInString_def Let_def)
qed

lemma DecodeRuneInString_append4:
  "DecodeRuneInString ((a # b # c # d # xs) @ t) = DecodeRuneInString (a # b # c # d # xs)"
  using firstSize_cases [of "byte a"] by (auto simp: DecodeRuneInString_def Let_def)

lemma DecodeRuneInString_append:
  assumes "xs \<noteq> []" and "boundary t"
  shows "DecodeRuneInString (xs @ t) = DecodeRuneInString xs"
proof -
  consider a where "xs = [a]" | a b where "xs = [a, b]" | a b c where "xs = [a, b, c]"
    | a b c d ys where "xs = a # b # c # d # ys"
    using assms(1) by (cases xs rule: list.exhaust [case_names Nil Cons])
      (auto simp: neq_Nil_conv, metis list.exhaust)
  then show ?thesis
    using assms(2) DecodeRuneInString_append1 DecodeRuneInString_append2
      DecodeRuneInString_append3 DecodeRuneInString_append4
    by cases simp_all
qed


lemma runes_append: "boundary t \<Longrightarrow> runes (xs @ t) = runes xs @ runes t"
proof (induction xs rule: runes.induct)
  case (1 s)
  show ?case
  proof (cases "s = []")
    case True
    then show ?thesis by simp
  next
    case False
    let ?w = "snd (DecodeRuneInString s)"
    have d: "DecodeRuneInString (s @ t) = DecodeRuneInString s"
      using False "1.prems" by (rule DecodeRuneInString_append)
    have w: "?w \<le> length s"
      using False DecodeRuneInString_size [of s] by simp
    have "runes (s @ t) = fst (DecodeRuneInString s) # runes (drop ?w s @ t)"
      using False w by (subst runes.simps) (simp add: d)
    also have "runes (drop ?w s @ t) = runes (drop ?w s) @ runes t"
      using False "1.prems" by (rule "1.IH")
    finally show ?thesis
      using False by (subst (2) runes.simps) simp
  qed
qed

lemma EncodeRune_boundary: "boundary (EncodeRune r @ ys)"
  by (simp add: boundary_def EncodeRune_def RuneError_def MaxRune_def)

lemma EncodeRune_high:
  "0x80 \<le> r \<Longrightarrow> c \<in> set (EncodeRune r) \<Longrightarrow> 0x80 \<le> byte c"
  by (auto simp: EncodeRune_def RuneError_def MaxRune_def split: if_splits)


lemma add_mod_64: "m < 64 \<Longrightarrow> (128 + m) mod 64 = (m::nat)"
  using mod_mult_self1 [of m 2 64] by (simp add: add.commute)

lemma add_mod_32: "q < 32 \<Longrightarrow> (192 + q) mod 32 = (q::nat)"
  using mod_mult_self1 [of q 6 32] by (simp add: add.commute)

lemma add_mod_16: "q < 16 \<Longrightarrow> (224 + q) mod 16 = (q::nat)"
  using mod_mult_self1 [of q 14 16] by (simp add: add.commute)

lemma add_mod_8: "q < 8 \<Longrightarrow> (240 + q) mod 8 = (q::nat)"
  using mod_mult_self1 [of q 30 8] by (simp add: add.commute)

lemma shift64: "(a * 64 + b) * n = a * (64 * n) + b * (n::nat)"
  by (simp add: add_mult_distrib)

lemma split3: "r div 4096 * 4096 + r div 64 mod 64 * 64 + r mod 64 = (r::nat)"
proof -
  have "r div 4096 = r div 64 div 64"
    by (simp add: div_mult2_eq [symmetric])
  then have "r div 4096 * 4096 + r div 64 mod 64 * 64 = (r div 64 div 64 * 64 + r div 64 mod 64) * 64"
    by (simp only: shift64)
  also have "\<dots> = r div 64 * 64"
    by (simp only: div_mult_mod_eq)
  finally show ?thesis
    by simp
qed

lemma split4:
  "r div 262144 * 262144 + r div 4096 mod 64 * 4096 + r div 64 mod 64 * 64 + r mod 64 = (r::nat)"
proof -
  have "r div 262144 = r div 4096 div 64"
    by (simp add: div_mult2_eq [symmetric])
  then have "r div 262144 * 262144 + r div 4096 mod 64 * 4096 =
      (r div 4096 div 64 * 64 + r div 4096 mod 64) * 4096"
    by (simp only: shift64)
  also have "\<dots> = r div 4096 * 4096"
    by (simp only: div_mult_mod_eq)
  finally show ?thesis
    using split3 [of r] by simp
qed


lemma DecodeRuneInString_2:
  assumes "0xC2 \<le> b0" and "b0 < 0xE0" and "0x80 \<le> b1" and "b1 \<le> 0xBF"
  shows "DecodeRuneInString (char_of b0 # char_of b1 # t) = (b0 mod 32 * 64 + b1 mod 64, 2)"
  using assms by (simp add: DecodeRuneInString_def firstSize_def acceptLo_def acceptHi_def Let_def)

lemma DecodeRuneInString_3:
  assumes "0xE0 \<le> b0" and "b0 < 0xF0" and "acceptLo b0 \<le> b1" and "b1 \<le> acceptHi b0"
    and "0x80 \<le> b2" and "b2 \<le> 0xBF"
  shows "DecodeRuneInString (char_of b0 # char_of b1 # char_of b2 # t) =
           (b0 mod 16 * 4096 + b1 mod 64 * 64 + b2 mod 64, 3)"
proof -
  have "b1 < 256"
    using assms(4) accept_range(2) [of b0] by simp
  then show ?thesis
    using assms by (simp add: DecodeRuneInString_def firstSize_def Let_def)
qed

lemma DecodeRuneInString_4:
  assumes "0xF0 \<le> b0" and "b0 < 0xF5" and "acceptLo b0 \<le> b1" and "b1 \<le> acceptHi b0"
    and "0x80 \<le> b2" and "b2 \<le> 0xBF" and "0x80 \<le> b3" and "b3 \<le> 0xBF"
  shows "DecodeRuneInString (char_of b0 # char_of b1 # char_of b2 # char_of b3 # t) =
           (b0 mod 8 * 262144 + b1 mod 64 * 4096 + b2 mod 64 * 64 + b3 mod 64, 4)"
proof -
  have "b1 < 256"
    using assms(4) accept_range(2) [of b0] by simp
  then show ?thesis
    using assms by (simp add: DecodeRuneInString_def firstSize_def Let_def)
qed

lemma mod_64_less: "(m::nat) mod 64 < 64"
  by simp

lemma DecodeRuneInString_EncodeRune:
  assumes "ValidRune r"
  shows "DecodeRuneInString (EncodeRune r @ t) = (r, length (EncodeRune r))"
proof -
  consider "r \<le> 0x7F" | "0x7F < r" "r \<le> 0x7FF" | "0x7FF < r" "r \<le> 0xFFFF" | "0xFFFF < r"
    by linarith
  then show ?thesis
  proof cases
    case 1
    then show ?thesis
      by (simp add: EncodeRune_def DecodeRuneInString_def firstSize_def)
  next
    case 2
    have q: "2 \<le> r div 64" "r div 64 < 32"
      using 2 by (simp_all add: less_eq_div_iff_mult_less_eq less_mult_imp_div_less)
    have "DecodeRuneInString (char_of (0xC0 + r div 64) # char_of (0x80 + r mod 64) # t) =
            ((0xC0 + r div 64) mod 32 * 64 + (0x80 + r mod 64) mod 64, 2)"
      using q mod_64_less [of r] by (intro DecodeRuneInString_2) simp_all
    also have "(0xC0 + r div 64) mod 32 * 64 + (0x80 + r mod 64) mod 64 = r"
      using q by (simp add: add_mod_32 add_mod_64)
    finally show ?thesis
      using 2 by (simp add: EncodeRune_def)
  next
    case 3
    let ?a = "r div 4096" and ?b = "r div 64 mod 64" and ?c = "r mod 64"
    have a: "?a < 16"
      using 3 by (simp add: less_mult_imp_div_less)
    have lo: "32 \<le> ?b" if "?a = 0"
    proof -
      have "r < 4096"
        using that by (simp add: div_eq_0_iff)
      then have "r div 64 < 64"
        by (simp add: less_mult_imp_div_less)
      moreover have "32 \<le> r div 64"
        using 3 by (simp add: less_eq_div_iff_mult_less_eq)
      ultimately show ?thesis
        by simp
    qed
    have hi: "?b < 32" if "?a = 13"
    proof -
      have "r div 64 div 64 = 13"
        using that by (simp add: div_mult2_eq [symmetric])
      then have "r div 64 = 13 * 64 + ?b"
        using div_mult_mod_eq [of "r div 64" 64] by simp
      moreover have "r < 0xD800"
      proof -
        have "r < 0xE000"
          using that div_less_iff_less_mult [of 4096 r 14] by simp
        moreover have "0xD000 \<le> r"
          using that less_eq_div_iff_mult_less_eq [of 4096 13 r] by simp
        ultimately show ?thesis
          using assms by (simp add: ValidRune_def)
      qed
      then have "r div 64 < 864"
        by (simp add: less_mult_imp_div_less)
      ultimately show ?thesis
        by simp
    qed
    have "DecodeRuneInString
            (char_of (0xE0 + ?a) # char_of (0x80 + ?b) # char_of (0x80 + ?c) # t) =
            ((0xE0 + ?a) mod 16 * 4096 + (0x80 + ?b) mod 64 * 64 + (0x80 + ?c) mod 64, 3)"
      using a lo hi mod_64_less [of r] mod_64_less [of "r div 64"]
      by (intro DecodeRuneInString_3) (auto simp: acceptLo_def acceptHi_def)
    also have "(0xE0 + ?a) mod 16 * 4096 + (0x80 + ?b) mod 64 * 64 + (0x80 + ?c) mod 64 = r"
      using a by (simp add: add_mod_16 add_mod_64 split3)
    finally show ?thesis
      using 3 assms by (auto simp: EncodeRune_def ValidRune_def)
  next
    case 4
    let ?a = "r div 262144" and ?b = "r div 4096 mod 64" and ?c = "r div 64 mod 64"
      and ?d = "r mod 64"
    have r: "r \<le> 0x10FFFF"
      using assms by (simp add: ValidRune_def MaxRune_def)
    have a: "?a < 5"
      using r by (simp add: less_mult_imp_div_less)
    have lo: "16 \<le> ?b" if "?a = 0"
    proof -
      have "r < 262144"
        using that by (simp add: div_eq_0_iff)
      then have "r div 4096 < 64"
        by (simp add: less_mult_imp_div_less)
      moreover have "16 \<le> r div 4096"
        using 4 by (simp add: less_eq_div_iff_mult_less_eq)
      ultimately show ?thesis
        by simp
    qed
    have hi: "?b < 16" if "?a = 4"
    proof -
      have "r div 4096 div 64 = 4"
        using that by (simp add: div_mult2_eq [symmetric])
      then have "r div 4096 = 4 * 64 + ?b"
        using div_mult_mod_eq [of "r div 4096" 64] by simp
      moreover have "r div 4096 < 272"
        using r by (simp add: less_mult_imp_div_less)
      ultimately show ?thesis
        by simp
    qed
    have "DecodeRuneInString
            (char_of (0xF0 + ?a) # char_of (0x80 + ?b) # char_of (0x80 + ?c)
               # char_of (0x80 + ?d) # t) =
            ((0xF0 + ?a) mod 8 * 262144 + (0x80 + ?b) mod 64 * 4096 + (0x80 + ?c) mod 64 * 64
               + (0x80 + ?d) mod 64, 4)"
      using a lo hi mod_64_less [of r] mod_64_less [of "r div 64"] mod_64_less [of "r div 4096"]
      by (intro DecodeRuneInString_4) (auto simp: acceptLo_def acceptHi_def)
    also have "(0xF0 + ?a) mod 8 * 262144 + (0x80 + ?b) mod 64 * 4096 + (0x80 + ?c) mod 64 * 64
               + (0x80 + ?d) mod 64 = r"
      using a by (simp add: add_mod_8 add_mod_64 split4)
    finally show ?thesis
      using 4 r by (auto simp: EncodeRune_def MaxRune_def)
  qed
qed


lemma runes_EncodeRune: "ValidRune r \<Longrightarrow> runes (EncodeRune r @ ys) = r # runes ys"
proof -
  assume "ValidRune r"
  then have d: "DecodeRuneInString (EncodeRune r @ ys) = (r, length (EncodeRune r))"
    by (rule DecodeRuneInString_EncodeRune)
  have "EncodeRune r @ ys \<noteq> []"
    by (simp add: EncodeRune_def)
  then show ?thesis
    by (subst runes.simps) (simp add: d)
qed

lemma runes_insert:
  "ValidRune r \<Longrightarrow> runes (xs @ EncodeRune r @ ys) = runes xs @ r # runes ys"
  by (simp add: runes_append EncodeRune_boundary runes_EncodeRune)

lemma strings_Map_insert:
  "ValidRune r \<Longrightarrow>
   strings_Map f (xs @ EncodeRune r @ ys) = strings_Map f xs @ EncodeRune (f r) @ strings_Map f ys"
  by (simp add: strings_Map_def runes_insert)

lemma isReSpace_char_of: "r < 0x80 \<Longrightarrow> isReSpace (char_of r) = isReSpaceRune r"
  by (simp add: isReSpace_def isReSpaceRune_def)

lemma filter_EncodeRune:
  assumes "\<not> isReSpaceRune r"
  shows "filter (\<lambda>c. \<not> isReSpace c) (EncodeRune r) = EncodeRune r"
proof (cases "r < 0x80")
  case True
  then show ?thesis
    using assms by (simp add: EncodeRune_def isReSpace_char_of)
next
  case False
  then have "\<And>c. c \<in> set (EncodeRune r) \<Longrightarrow> 0x80 \<le> byte c"
    by (intro EncodeRune_high [of r]) simp_all
  then have "\<And>c. c \<in> set (EncodeRune r) \<Longrightarrow> \<not> isReSpace c"
    by (fastforce simp: isReSpace_def)
  then show ?thesis
    by (simp add: filter_id_conv)
qed

lemma normalizeQuery_insert:
  assumes "ValidRune r" and "\<not> isReSpaceRune r"
  shows "normalizeQuery lowerCase (xs @ EncodeRune r @ ys) =
           normalizeQuery lowerCase xs @ EncodeRune (unicode_ToLower lowerCase r)
             @ normalizeQuery lowerCase ys"
  using assms
  by (simp add: normalizeQuery_def ToLower_Map whitespaceRegexp_ReplaceAllString_def
      filter_EncodeRune strings_Map_insert)

lemma EncodeRune_byte: "byte c < 0x80 \<Longrightarrow> EncodeRune (byte c) = [c]"
  by (simp add: EncodeRune_def)

lemma isLetter_rune:
  assumes "isLetter c"
  shows "byte c < 0x80" and "ValidRune (byte c)" and "\<not> isReSpaceRune (byte c)"
    and "byte (swapCase c) < 0x80" and "ValidRune (byte (swapCase c))"
    and "\<not> isReSpaceRune (byte (swapCase c))"
    and "unicode_ToLower lowerCase (byte (swapCase c)) = unicode_ToLower lowerCase (byte c)"
  using assms
  by (auto simp: isLetter_def swapCase_def ValidRune_def MaxRune_def isReSpaceRune_def
      unicode_ToLower_def)

lemma case_edit_normalizeQuery:
  "case_edit lowerCase q q' \<Longrightarrow> normalizeQuery lowerCase q' = normalizeQuery lowerCase q"
proof (induction rule: case_edit.induct)
  case (change_case c xs ys)
  have "normalizeQuery lowerCase (xs @ EncodeRune (byte (swapCase c)) @ ys) =
        normalizeQuery lowerCase (xs @ EncodeRune (byte c) @ ys)"
    using isLetter_rune [OF change_case] by (simp add: normalizeQuery_insert)
  then show ?case
    using isLetter_rune [OF change_case] by (simp add: EncodeRune_byte)
next
  case (change_rune r r' xs ys)
  then show ?case
    by (simp add: normalizeQuery_insert)
qed

lemma space_edit_filter:
  "space_edit q q' \<Longrightarrow> filter (\<lambda>c. \<not> isReSpace c) q' = filter (\<lambda>c. \<not> isReSpace c) q"
  by (induction rule: space_edit.induct) simp_all

lemma space_edit_normalizeQuery:
  "space_edit q q' \<Longrightarrow> normalizeQuery lowerCase q' = normalizeQuery lowerCase q"
  by (simp add: normalizeQuery_def whitespaceRegexp_ReplaceAllString_def space_edit_filter)

lemma edits_normalizeQuery:
  "(edit lowerCase)\<^sup>*\<^sup>* q q' \<Longrightarrow> normalizeQuery lowerCase q' = normalizeQuery lowerCase q"
proof (induction rule: rtranclp_induct)
  case base
  then show ?case by simp
next
  case (step y z)
  then show ?case
    by (auto simp: edit_def space_edit_normalizeQuery case_edit_normalizeQuery)
qed

lemma valid_2:
  assumes "0xC2 \<le> b0" and "b0 < 0xE0"
  shows "0x80 \<le> b0 mod 32 * 64 + b1 mod 64" and "ValidRune (b0 mod 32 * 64 + b1 mod 64)"
proof -
  define k where "k = b0 - 192"
  define c where "c = b1 mod 64"
  have k: "b0 = 192 + k" "2 \<le> k" "k < 32"
    using assms by (simp_all add: k_def)
  have c: "c < 64"
    by (simp add: c_def)
  have m: "b0 mod 32 = k"
    using k by (simp add: add_mod_32)
  show "0x80 \<le> b0 mod 32 * 64 + b1 mod 64"
    using k(2) by (simp add: m)
  have "k * 64 + c < 55296"
    using k(3) c by simp
  then show "ValidRune (b0 mod 32 * 64 + b1 mod 64)"
    by (simp add: m ValidRune_def MaxRune_def c_def)
qed

lemma valid_3:
  assumes "0xE0 \<le> b0" and "b0 < 0xF0" and "acceptLo b0 \<le> b1" and "b1 \<le> acceptHi b0"
  shows "0x80 \<le> b0 mod 16 * 4096 + b1 mod 64 * 64 + b2 mod 64"
    and "ValidRune (b0 mod 16 * 4096 + b1 mod 64 * 64 + b2 mod 64)"
proof -
  define a where "a = b0 - 224"
  define b where "b = b1 - 128"
  define c where "c = b2 mod 64"
  have a: "b0 = 224 + a" "a < 16"
    using assms by (simp_all add: a_def)
  have "128 \<le> b1" "b1 \<le> 191"
    using assms(3,4) accept_range [of b0] by simp_all
  then have b: "b1 = 128 + b" "b < 64"
    by (simp_all add: b_def)
  have c: "c < 64"
    by (simp add: c_def)
  have lo: "32 \<le> b" if "a = 0"
    using that assms(3) a(1) b(1) by (simp add: acceptLo_def)
  have hi: "b < 32" if "a = 13"
    using that assms(4) a(1) b(1) by (simp add: acceptHi_def)
  have m: "b0 mod 16 = a" "b1 mod 64 = b"
    using a b by (simp_all add: add_mod_16 add_mod_64)
  have ge: "128 \<le> a * 4096 + b * 64 + c"
    using lo by (cases "a = 0") simp_all
  have ns: "a * 4096 + b * 64 + c < 55296 \<or> 57343 < a * 4096 + b * 64 + c"
  proof (cases "a = 13")
    case True
    then show ?thesis
      using hi c by simp
  next
    case False
    then have "a \<le> 12 \<or> 14 \<le> a"
      by arith
    then show ?thesis
      using b(2) c by auto
  qed
  have le: "a * 4096 + b * 64 + c \<le> 65535"
    using a(2) b(2) c by simp
  show "0x80 \<le> b0 mod 16 * 4096 + b1 mod 64 * 64 + b2 mod 64"
    using ge by (simp add: m c_def)
  show "ValidRune (b0 mod 16 * 4096 + b1 mod 64 * 64 + b2 mod 64)"
    using ns le unfolding m c_def [symmetric] ValidRune_def MaxRune_def by arith
qed

lemma valid_4:
  assumes "0xF0 \<le> b0" and "b0 < 0xF5" and "acceptLo b0 \<le> b1" and "b1 \<le> acceptHi b0"
  shows "0x80 \<le> b0 mod 8 * 262144 + b1 mod 64 * 4096 + b2 mod 64 * 64 + b3 mod 64"
    and "ValidRune (b0 mod 8 * 262144 + b1 mod 64 * 4096 + b2 mod 64 * 64 + b3 mod 64)"
proof -
  define a where "a = b0 - 240"
  define b where "b = b1 - 128"
  define c where "c = b2 mod 64"
  define d where "d = b3 mod 64"
  have a: "b0 = 240 + a" "a < 5"
    using assms by (simp_all add: a_def)
  have "128 \<le> b1" "b1 \<le> 191"
    using assms(3,4) accept_range [of b0] by simp_all
  then have b: "b1 = 128 + b" "b < 64"
    by (simp_all add: b_def)
  have c: "c < 64" and d: "d < 64"
    by (simp_all add: c_def d_def)
  have lo: "16 \<le> b" if "a = 0"
    using that assms(3) a(1) b(1) by (simp add: acceptLo_def)
  have hi: "b < 16" if "a = 4"
    using that assms(4) a(1) b(1) by (simp add: acceptHi_def)
  have m: "b0 mod 8 = a" "b1 mod 64 = b"
    using a b by (simp_all add: add_mod_8 add_mod_64)
  have ge: "65536 \<le> a * 262144 + b * 4096 + c * 64 + d"
    using lo by (cases "a = 0") simp_all
  have le: "a * 262144 + b * 4096 + c * 64 + d \<le> 1114111"
  proof (cases "a = 4")
    case True
    then show ?thesis
      using hi c d by simp
  next
    case False
    then have "a \<le> 3"
      using a(2) by simp
    then show ?thesis
      using b(2) c d by simp
  qed
  show "0x80 \<le> b0 mod 8 * 262144 + b1 mod 64 * 4096 + b2 mod 64 * 64 + b3 mod 64"
    using ge by (simp add: m c_def d_def)
  show "ValidRune (b0 mod 8 * 262144 + b1 mod 64 * 4096 + b2 mod 64 * 64 + b3 mod 64)"
    using ge le unfolding m c_def [symmetric] d_def [symmetric] ValidRune_def MaxRune_def
    by arith
qed

lemma DecodeRuneInString_cases:
  assumes "s \<noteq> []"
  obtains (ascii) "byte (hd s) < 0x80" "fst (DecodeRuneInString s) = byte (hd s)"
  | (error) "fst (DecodeRuneInString s) = RuneError"
  | (two) b0 b1 where "0xC2 \<le> b0" "b0 < 0xE0"
      "fst (DecodeRuneInString s) = b0 mod 32 * 64 + b1 mod 64"
  | (three) b0 b1 b2 where "0xE0 \<le> b0" "b0 < 0xF0" "acceptLo b0 \<le> b1" "b1 \<le> acceptHi b0"
      "fst (DecodeRuneInString s) = b0 mod 16 * 4096 + b1 mod 64 * 64 + b2 mod 64"
  | (four) b0 b1 b2 b3 where "0xF0 \<le> b0" "b0 < 0xF5" "acceptLo b0 \<le> b1" "b1 \<le> acceptHi b0"
      "fst (DecodeRuneInString s) =
         b0 mod 8 * 262144 + b1 mod 64 * 4096 + b2 mod 64 * 64 + b3 mod 64"
proof -
  obtain c s' where s: "s = c # s'"
    using assms by (cases s) auto
  consider "firstSize (byte c) = 0" | "firstSize (byte c) = 1" | "firstSize (byte c) = 2"
    | "firstSize (byte c) = 3" | "firstSize (byte c) = 4"
    using firstSize_cases [of "byte c"] by auto
  then show thesis
  proof cases
    case 1
    then show ?thesis
      by (intro error) (simp add: s DecodeRuneInString_def)
  next
    case 2
    then have "byte c < 0x80"
      by (simp add: firstSize_def split: if_splits)
    then show ?thesis
      by (intro ascii) (simp_all add: s DecodeRuneInString_ASCII)
  next
    case 3
    then have r: "0xC2 \<le> byte c" "byte c < 0xE0"
      by (simp_all add: firstSize_def split: if_splits)
    show ?thesis
    proof (cases "fst (DecodeRuneInString s) = RuneError")
      case True
      then show ?thesis by (rule error)
    next
      case False
      then have "fst (DecodeRuneInString s) = byte c mod 32 * 64 + byte (s ! 1) mod 64"
        using 3 by (simp add: s DecodeRuneInString_def Let_def split: if_splits)
      with r show ?thesis
        by (rule two)
    qed
  next
    case 4
    then have r: "0xE0 \<le> byte c" "byte c < 0xF0"
      by (simp_all add: firstSize_def split: if_splits)
    show ?thesis
    proof (cases "fst (DecodeRuneInString s) = RuneError")
      case True
      then show ?thesis by (rule error)
    next
      case False
      then have "acceptLo (byte c) \<le> byte (s ! 1) \<and> byte (s ! 1) \<le> acceptHi (byte c)
          \<and> fst (DecodeRuneInString s) =
              byte c mod 16 * 4096 + byte (s ! 1) mod 64 * 64 + byte (s ! 2) mod 64"
        using 4 by (simp add: s DecodeRuneInString_def Let_def split: if_splits)
      with r show ?thesis
        by (intro three [of "byte c" "byte (s ! 1)" "byte (s ! 2)"]) simp_all
    qed
  next
    case 5
    then have r: "0xF0 \<le> byte c" "byte c < 0xF5"
      by (simp_all add: firstSize_def split: if_splits)
    show ?thesis
    proof (cases "fst (DecodeRuneInString s) = RuneError")
      case True
      then show ?thesis by (rule error)
    next
      case False
      then have "acceptLo (byte c) \<le> byte (s ! 1) \<and> byte (s ! 1) \<le> acceptHi (byte c)
          \<and> fst (DecodeRuneInString s) =
              byte c mod 8 * 262144 + byte (s ! 1) mod 64 * 4096 + byte (s ! 2) mod 64 * 64
                + byte (s ! 3) mod 64"
        using 5 by (simp add: s DecodeRuneInString_def Let_def split: if_splits)
      with r show ?thesis
        by (intro four [of "byte c" "byte (s ! 1)" "byte (s ! 2)" "byte (s ! 3)"]) simp_all
    qed
  qed
qed


lemma DecodeRuneInString_valid:
  assumes "s \<noteq> []"
  shows "ValidRune (fst (DecodeRuneInString s))
       \<and> (fst (DecodeRuneInString s) < 0x80 \<longrightarrow> fst (DecodeRuneInString s) = byte (hd s))"
  using assms
proof (cases s rule: DecodeRuneInString_cases)
  case ascii
  then show ?thesis
    by (simp add: ValidRune_def MaxRune_def)
next
  case error
  then show ?thesis
    by (simp add: ValidRune_def MaxRune_def RuneError_def)
next
  case (two b0 b1)
  then show ?thesis
    using valid_2 [of b0 b1] by simp
next
  case (three b0 b1 b2)
  then show ?thesis
    using valid_3 [of b0 b1 b2] by simp
next
  case (four b0 b1 b2 b3)
  then show ?thesis
    using valid_4 [of b0 b1 b2 b3] by simp
qed


lemma runes_valid:
  "r \<in> set (runes s) \<Longrightarrow> ValidRune r \<and> (r < 0x80 \<longrightarrow> char_of r \<in> set s)"
proof (induction s rule: runes.induct)
  case (1 s)
  show ?case
  proof (cases "s = []")
    case True
    then show ?thesis
      using "1.prems" by simp
  next
    case False
    let ?d = "DecodeRuneInString s"
    have "runes s = fst ?d # runes (drop (snd ?d) s)"
      using False by (subst runes.simps) simp
    then consider "r = fst ?d" | "r \<in> set (runes (drop (snd ?d) s))"
      using "1.prems" by auto
    then show ?thesis
    proof cases
      case 1
      have "hd s \<in> set s"
        using False by simp
      moreover have "char_of (byte (hd s)) = hd s"
        by simp
      ultimately show ?thesis
        using DecodeRuneInString_valid [OF False] 1 by (auto simp del: char_of_byte)
    next
      case 2
      then have "ValidRune r \<and> (r < 0x80 \<longrightarrow> char_of r \<in> set (drop (snd ?d) s))"
        using False by (intro "1.IH") simp_all
      then show ?thesis
        by (auto dest: in_set_dropD)
    qed
  qed
qed

lemma runes_concat_EncodeRune:
  "\<forall>u\<in>set us. ValidRune u \<Longrightarrow> runes (concat (map EncodeRune us)) = us"
  by (induction us) (simp_all add: runes_EncodeRune)

lemma filter_concat_EncodeRune:
  "\<forall>u\<in>set us. \<not> isReSpaceRune u \<Longrightarrow>
   filter (\<lambda>c. \<not> isReSpace c) (concat (map EncodeRune us)) = concat (map EncodeRune us)"
  by (induction us) (simp_all add: filter_EncodeRune)

lemma unicode_ToLower_ASCII:
  assumes "r < 0x80" and "\<not> isReSpaceRune r"
  shows "ValidRune (unicode_ToLower lowerCase r)"
    and "\<not> isReSpaceRune (unicode_ToLower lowerCase r)"
    and "unicode_ToLower lowerCase (unicode_ToLower lowerCase r) = unicode_ToLower lowerCase r"
  using assms by (auto simp: unicode_ToLower_def ValidRune_def MaxRune_def isReSpaceRune_def)

lemma normalizeQuery_idem_runes:
  assumes "\<forall>r\<in>set (runes (whitespaceRegexp_ReplaceAllString q)). 0x80 \<le> r \<longrightarrow>
             ValidRune (lowerCase r) \<and> \<not> isReSpaceRune (lowerCase r)
           \<and> unicode_ToLower lowerCase (lowerCase r) = lowerCase r"
  shows "normalizeQuery lowerCase (normalizeQuery lowerCase q) = normalizeQuery lowerCase q"
proof -
  let ?s = "whitespaceRegexp_ReplaceAllString q"
  let ?L = "unicode_ToLower lowerCase"
  let ?us = "map ?L (runes ?s)"
  have n: "normalizeQuery lowerCase q = concat (map EncodeRune ?us)"
    by (simp add: normalizeQuery_def ToLower_Map strings_Map_def o_def)
  have u: "ValidRune (?L r) \<and> \<not> isReSpaceRune (?L r) \<and> ?L (?L r) = ?L r"
    if "r \<in> set (runes ?s)" for r
  proof (cases "r < 0x80")
    case True
    then have "char_of r \<in> set ?s"
      using that runes_valid [of r ?s] by simp
    then have "\<not> isReSpace (char_of r)"
      by (simp add: whitespaceRegexp_ReplaceAllString_def)
    then have "\<not> isReSpaceRune r"
      using True by (simp add: isReSpace_char_of)
    then show ?thesis
      using True unicode_ToLower_ASCII [of r lowerCase] by simp
  next
    case False
    then have "?L r = lowerCase r"
      by (simp add: unicode_ToLower_def)
    then show ?thesis
      using False that assms by simp
  qed
  have "filter (\<lambda>c. \<not> isReSpace c) (concat (map EncodeRune ?us)) =
          concat (map EncodeRune ?us)"
    using u by (intro filter_concat_EncodeRune) simp
  then have "whitespaceRegexp_ReplaceAllString (concat (map EncodeRune ?us)) =
          concat (map EncodeRune ?us)"
    by (simp only: whitespaceRegexp_ReplaceAllString_def [of "concat (map EncodeRune ?us)"])
  moreover have "runes (concat (map EncodeRune ?us)) = ?us"
    using u by (intro runes_concat_EncodeRune) simp
  moreover have "map ?L ?us = ?us"
    using u by simp
  ultimately have "normalizeQuery lowerCase (concat (map EncodeRune ?us)) =
          concat (map EncodeRune ?us)"
    by (simp add: normalizeQuery_def ToLower_Map strings_Map_def o_def cong: map_cong)
  then show ?thesis
    by (simp only: n)
qed

lemma isASCII_filter: "isASCII s \<Longrightarrow> isASCII (filter P s)"
  by (induction s) auto

lemma normalizeQuery_idem:
  assumes "isASCII q \<or>
           (\<forall>r. 0x80 \<le> r \<and> ValidRune r \<longrightarrow>
              ValidRune (lowerCase r) \<and> \<not> isReSpaceRune (lowerCase r)
            \<and> unicode_ToLower lowerCase (lowerCase r) = lowerCase r)"
  shows "normalizeQuery lowerCase (normalizeQuery lowerCase q) = normalizeQuery lowerCase q"
proof (rule normalizeQuery_idem_runes, intro ballI impI)
  fix r
  assume r: "r \<in> set (runes (whitespaceRegexp_ReplaceAllString q))" and h: "0x80 \<le> r"
  show "ValidRune (lowerCase r) \<and> \<not> isReSpaceRune (lowerCase r)
           \<and> unicode_ToLower lowerCase (lowerCase r) = lowerCase r"
  proof (cases "isASCII q")
    case True
    then have "runes (whitespaceRegexp_ReplaceAllString q) =
                 map byte (whitespaceRegexp_ReplaceAllString q)"
      by (simp add: runes_ASCII isASCII_filter whitespaceRegexp_ReplaceAllString_def)
    moreover have "isASCII (whitespaceRegexp_ReplaceAllString q)"
      using True by (simp add: isASCII_filter whitespaceRegexp_ReplaceAllString_def)
    ultimately have "r < 0x80"
      using r by (auto simp: isASCII_def list_all_iff)
    then show ?thesis
      using h by simp
  next
    case False
    then show ?thesis
      using assms r h runes_valid [of r] by blast
  qed
qed

text \<open>
  Claim C3, as the code has it. For every query text \<open>q\<close>, a sequence of bytes: a text obtained
  from \<open>q\<close> by any number of edits has the key of \<open>q\<close>, where an edit inserts or removes
  anywhere one character of the class \<^verbatim>\<open>\s\<close> (tab, newline, form feed, carriage return,
  space), or changes the case of an ASCII letter, or replaces a character by one with the
  same lower-case mapping under \<^verbatim>\<open>unicode.ToLower\<close>. And the normalised form of \<open>q\<close> has the
  key of \<open>q\<close> (normalising twice is normalising once): for a text of ASCII bytes, and for every
  text when the case tables map a code point above \<^verbatim>\<open>MaxASCII\<close> to a valid code point that
  is not of the class \<^verbatim>\<open>\s\<close> and that \<^verbatim>\<open>unicode.ToLower\<close> leaves as it is.
\<close>

theorem getQueryHash_insensitive:
  "((edit lowerCase)\<^sup>*\<^sup>* q q' \<longrightarrow> getQueryHash lowerCase q' = getQueryHash lowerCase q)
   \<and> (isASCII q \<or>
        (\<forall>r. 0x80 \<le> r \<and> ValidRune r \<longrightarrow>
           ValidRune (lowerCase r) \<and> \<not> isReSpaceRune (lowerCase r)
         \<and> unicode_ToLower lowerCase (lowerCase r) = lowerCase r) \<longrightarrow>
      getQueryHash lowerCase (normalizeQuery lowerCase q) = getQueryHash lowerCase q)"
proof -
  have "getQueryHash lowerCase q' = getQueryHash lowerCase q" if "(edit lowerCase)\<^sup>*\<^sup>* q q'"
    using that by (simp add: getQueryHash_def edits_normalizeQuery)
  moreover have "getQueryHash lowerCase (normalizeQuery lowerCase q) = getQueryHash lowerCase q"
    if "isASCII q \<or>
        (\<forall>r. 0x80 \<le> r \<and> ValidRune r \<longrightarrow>
           ValidRune (lowerCase r) \<and> \<not> isReSpaceRune (lowerCase r)
         \<and> unicode_ToLower lowerCase (lowerCase r) = lowerCase r)"
    using that by (simp only: getQueryHash_def normalizeQuery_idem)
  ultimately show ?thesis
    by blast
qed

text \<open>The query text of the example is \<^verbatim>\<open>S\<close>, the two bytes of U+00C9 (E with acute accent),
  a space and \<^verbatim>\<open>1\<close>; the case table maps U+00C9 to U+00E9 and every other code point to
  itself. Three edits lead to \<^verbatim>\<open>s\<close>, the two bytes of U+00E9 and \<^verbatim>\<open>1\<close>.\<close>

lemma EncodeRune_E_acute:
  "EncodeRune 0xC9 = [CHR 0xC3, CHR 0x89]" "EncodeRune 0xE9 = [CHR 0xC3, CHR 0xA9]"
  by (simp_all add: EncodeRune_def char_of_eq_iff)

lemma edit_example:
  "(edit (\<lambda>r. if r = 0xC9 then 0xE9 else r))\<^sup>*\<^sup>*
     [CHR ''S'', CHR 0xC3, CHR 0x89, CHR '' '', CHR ''1'']
     [CHR ''s'', CHR 0xC3, CHR 0xA9, CHR ''1'']"
proof -
  let ?T = "\<lambda>r::nat. if r = 0xC9 then 0xE9 else r"
  have "case_edit ?T ([] @ CHR ''S'' # [CHR 0xC3, CHR 0x89, CHR '' '', CHR ''1''])
          ([] @ swapCase (CHR ''S'') # [CHR 0xC3, CHR 0x89, CHR '' '', CHR ''1''])"
    by (rule change_case) (simp add: isLetter_def byte_def)
  moreover have "swapCase (CHR ''S'') = CHR ''s''"
    by (simp add: swapCase_def byte_def char_of_eq_iff)
  ultimately have 1: "edit ?T [CHR ''S'', CHR 0xC3, CHR 0x89, CHR '' '', CHR ''1'']
          [CHR ''s'', CHR 0xC3, CHR 0x89, CHR '' '', CHR ''1'']"
    by (simp add: edit_def)
  have "case_edit ?T ([CHR ''s''] @ EncodeRune 0xC9 @ [CHR '' '', CHR ''1''])
          ([CHR ''s''] @ EncodeRune 0xE9 @ [CHR '' '', CHR ''1''])"
    by (rule change_rune)
      (simp_all add: ValidRune_def MaxRune_def isReSpaceRune_def unicode_ToLower_def)
  then have 2: "edit ?T [CHR ''s'', CHR 0xC3, CHR 0x89, CHR '' '', CHR ''1'']
          [CHR ''s'', CHR 0xC3, CHR 0xA9, CHR '' '', CHR ''1'']"
    by (simp add: edit_def EncodeRune_E_acute)
  have "space_edit ([CHR ''s'', CHR 0xC3, CHR 0xA9] @ CHR '' '' # [CHR ''1''])
          ([CHR ''s'', CHR 0xC3, CHR 0xA9] @ [CHR ''1''])"
    by (rule remove_space) (simp add: isReSpace_def byte_def)
  then have 3: "edit ?T [CHR ''s'', CHR 0xC3, CHR 0xA9, CHR '' '', CHR ''1'']
          [CHR ''s'', CHR 0xC3, CHR 0xA9, CHR ''1'']"
    by (simp add: edit_def)
  from 1 2 3 show ?thesis
    by (meson rtranclp.rtrancl_into_rtrancl rtranclp.rtrancl_refl)
qed

theorem getQueryHash_insensitive_witness:
  "(edit (\<lambda>r. if r = 0xC9 then 0xE9 else r))\<^sup>*\<^sup>*
     [CHR ''S'', CHR 0xC3, CHR 0x89, CHR '' '', CHR ''1'']
     [CHR ''s'', CHR 0xC3, CHR 0xA9, CHR ''1'']
   \<and> \<not> isASCII [CHR ''S'', CHR 0xC3, CHR 0x89, CHR '' '', CHR ''1'']
   \<and> getQueryHash (\<lambda>r. if r = 0xC9 then 0xE9 else r) [CHR ''s'', CHR 0xC3, CHR 0xA9, CHR ''1'']
       = getQueryHash (\<lambda>r. if r = 0xC9 then 0xE9 else r)
           [CHR ''S'', CHR 0xC3, CHR 0x89, CHR '' '', CHR ''1'']
   \<and> getQueryHash (\<lambda>r. if r = 0xC9 then 0xE9 else r)
         (normalizeQuery (\<lambda>r. if r = 0xC9 then 0xE9 else r)
            [CHR ''S'', CHR 0xC3, CHR 0x89, CHR '' '', CHR ''1''])
       = getQueryHash (\<lambda>r. if r = 0xC9 then 0xE9 else r)
           [CHR ''S'', CHR 0xC3, CHR 0x89, CHR '' '', CHR ''1'']"
proof -
  let ?T = "\<lambda>r::nat. if r = 0xC9 then 0xE9 else r"
  have a: "\<not> isASCII [CHR ''S'', CHR 0xC3, CHR 0x89, CHR '' '', CHR ''1'']"
    by (simp add: byte_def)
  have t: "\<forall>r. 0x80 \<le> r \<and> ValidRune r \<longrightarrow>
           ValidRune (?T r) \<and> \<not> isReSpaceRune (?T r) \<and> unicode_ToLower ?T (?T r) = ?T r"
    by (simp add: ValidRune_def MaxRune_def isReSpaceRune_def unicode_ToLower_def)
  show ?thesis
    using a t edit_example
      getQueryHash_insensitive [of ?T "[CHR ''S'', CHR 0xC3, CHR 0x89, CHR '' '', CHR ''1'']"
        "[CHR ''s'', CHR 0xC3, CHR 0xA9, CHR ''1'']"]
    by blast
qed

subsection \<open>Keys of some query texts\<close>

text \<open>The digests below are computed by rewriting with the definitions of SHA-1.\<close>

lemma replicate_unroll: "replicate n x = (if n = 0 then [] else x # replicate (n - 1) x)"
  by (cases n) simp_all

lemma length_Cons_add: "length (x # xs) = length xs + 1"
  by simp

lemma upt_unroll: "[i..<j] = (if i < j then i # [i + 1..<j] else [])"
  by (simp add: upt_rec)

lemmas sha1_eval =
  getQueryHash_def normalizeQuery_def ToLower_def whitespaceRegexp_ReplaceAllString_def
  isReSpace_def lowerASCII_def
  sha1_Sum_def sha1_init_def sha1_blocks.simps sha1_pad_def be_bytes_def
  sha1_schedule.simps rotl32_def add32_def not32_def sha1_f_def sha1_k_def
  replicate_unroll length_Cons_add upt_unroll byte_def

lemma key_SELECT1:
  "map byte (getQueryHash id ''SELECT 1'') = [47, 140, 81, 7, 131, 147, 174, 61, 56, 157, 22, 217, 255, 233, 45, 228, 151, 107, 212, 29]"
  by (simp add: sha1_eval del: list.size(4) upt_Suc replicate_Suc replicate.simps)

lemma key_SELECT2:
  "map byte (getQueryHash id ''SELECT 2'') = [202, 34, 171, 225, 173, 22, 132, 221, 98, 236, 135, 90, 11, 92, 37, 165, 51, 207, 40, 122]"
  by (simp add: sha1_eval del: list.size(4) upt_Suc replicate_Suc replicate.simps)

lemma key_SELECT_vt_1:
  "map byte (getQueryHash id [CHR ''S'', CHR ''E'', CHR ''L'', CHR ''E'', CHR ''C'', CHR ''T'', CHR 0x0B, CHR ''1'']) = [116, 185, 99, 188, 16, 105, 235, 114, 39, 27, 113, 249, 11, 13, 122, 29, 36, 175, 250, 145]"
  by (simp add: sha1_eval del: list.size(4) upt_Suc replicate_Suc replicate.simps)

lemma key_SELECT1_neq_SELECT2: "getQueryHash id ''SELECT 1'' \<noteq> getQueryHash id ''SELECT 2''"
proof
  assume "getQueryHash id ''SELECT 1'' = getQueryHash id ''SELECT 2''"
  then have "map byte (getQueryHash id ''SELECT 1'') = map byte (getQueryHash id ''SELECT 2'')"
    by simp
  then show False
    by (simp add: key_SELECT1 key_SELECT2)
qed

text \<open>The key of the letter \<^verbatim>\<open>I\<close>, and the key of the dotless i (U+0131, the bytes C4 B1),
  whose upper-case letter is \<^verbatim>\<open>I\<close>: with case tables that, as those of Unicode do, map
  U+0131 to itself, the dotless i is its own normal form, and the normal form of \<^verbatim>\<open>I\<close> is
  \<^verbatim>\<open>i\<close>.\<close>

lemma EncodeRune_dotless_i: "EncodeRune 0x131 = [CHR 0xC4, CHR 0xB1]"
  by (simp add: EncodeRune_def char_of_eq_iff)

lemma normalizeQuery_dotless_i:
  assumes "lowerCase 0x131 = 0x131"
  shows "normalizeQuery lowerCase [CHR 0xC4, CHR 0xB1] = [CHR 0xC4, CHR 0xB1]"
proof -
  have "normalizeQuery lowerCase ([] @ EncodeRune 0x131 @ []) =
          normalizeQuery lowerCase [] @ EncodeRune (unicode_ToLower lowerCase 0x131)
            @ normalizeQuery lowerCase []"
    by (rule normalizeQuery_insert) (simp_all add: ValidRune_def MaxRune_def isReSpaceRune_def)
  moreover have "normalizeQuery lowerCase [] = []"
    by (simp add: normalizeQuery_def ToLower_def whitespaceRegexp_ReplaceAllString_def)
  moreover have "unicode_ToLower lowerCase 0x131 = 0x131"
    using assms by (simp add: unicode_ToLower_def)
  ultimately show ?thesis
    by (simp add: EncodeRune_dotless_i)
qed

lemma sha1_dotless_i:
  "map byte (sha1_Sum [CHR 0xC4, CHR 0xB1]) = [212, 76, 153, 121, 83, 165, 16, 215, 45, 80, 232, 115, 255, 39, 61, 226, 245, 228, 207, 119]"
  by (simp add: sha1_eval del: list.size(4) upt_Suc replicate_Suc replicate.simps)

lemma key_I:
  "map byte (getQueryHash lowerCase ''I'') = [4, 45, 196, 81, 47, 163, 211, 145, 197, 23, 12, 243, 170, 97, 230, 166, 56, 248, 67, 66]"
  by (simp add: sha1_eval del: list.size(4) upt_Suc replicate_Suc replicate.simps)

lemma key_dotless_i:
  assumes "lowerCase 0x131 = 0x131"
  shows "getQueryHash lowerCase [CHR 0xC4, CHR 0xB1] \<noteq> getQueryHash lowerCase ''I''"
proof
  assume "getQueryHash lowerCase [CHR 0xC4, CHR 0xB1] = getQueryHash lowerCase ''I''"
  then have "map byte (sha1_Sum [CHR 0xC4, CHR 0xB1]) = map byte (getQueryHash lowerCase ''I'')"
    using assms by (simp add: getQueryHash_def normalizeQuery_dotless_i)
  then show False
    by (simp add: sha1_dotless_i key_I)
qed

text \<open>
  Claim C3 as the specification states it fails on two counts. The vertical tab is white
  space for \<^verbatim>\<open>strings.TrimSpace\<close> and \<^verbatim>\<open>unicode.IsSpace\<close>, and it is not in the class
  \<^verbatim>\<open>\s\<close>: a query text with a vertical tab in it has another key than the text without
  it. And a change of letter case that \<^verbatim>\<open>unicode.ToLower\<close> does not undo changes the key:
  the dotless i (U+0131) and its upper-case letter \<^verbatim>\<open>I\<close> have different keys.
\<close>

theorem getQueryHash_distinguishes:
  "isSpace [CHR 0x0B]
   \<and> getQueryHash id [CHR ''S'', CHR ''E'', CHR ''L'', CHR ''E'', CHR ''C'', CHR ''T'', CHR 0x0B, CHR ''1'']
       \<noteq> getQueryHash id ''SELECT 1''
   \<and> getQueryHash id [CHR 0xC4, CHR 0xB1] \<noteq> getQueryHash id ''I''"
proof -
  have "map byte (getQueryHash id
          [CHR ''S'', CHR ''E'', CHR ''L'', CHR ''E'', CHR ''C'', CHR ''T'', CHR 0x0B, CHR ''1''])
        \<noteq> map byte (getQueryHash id ''SELECT 1'')"
    by (simp add: key_SELECT1 key_SELECT_vt_1)
  then have "getQueryHash id
          [CHR ''S'', CHR ''E'', CHR ''L'', CHR ''E'', CHR ''C'', CHR ''T'', CHR 0x0B, CHR ''1'']
        \<noteq> getQueryHash id ''SELECT 1''"
    by auto
  moreover have "isSpace [CHR 0x0B]"
    by (simp add: isSpace_def byte_def)
  moreover have "getQueryHash id [CHR 0xC4, CHR 0xB1] \<noteq> getQueryHash id ''I''"
    by (rule key_dotless_i) simp
  ultimately show ?thesis
    by simp
qed

section \<open>Properties of Conn and Stmt\<close>

lemma queryFunc_StubQuery [simp]: "queryFunc (StubQuery U c q r) = queryFunc c"
  by (simp add: StubQuery_def)

lemma queryFunc_StubQueryError [simp]: "queryFunc (StubQueryError U c q e) = queryFunc c"
  by (simp add: StubQueryError_def)

lemma queryFunc_register [simp]: "queryFunc (register U c reg) = queryFunc c"
  by (cases "(U, c, reg)" rule: register.cases) simp_all

lemma queryFunc_registerAll [simp]: "queryFunc (registerAll U c regs) = queryFunc c"
  unfolding registerAll_def by (induction regs arbitrary: c) simp_all

lemma queries_register:
  "queries (register U c (q, out)) =
   (queries c)(getQueryHash U q \<mapsto>
      (case out of Outcome_Result r \<Rightarrow> \<lparr>Query.result = r, err = None\<rparr>
                 | Outcome_Error e \<Rightarrow> \<lparr>Query.result = None, err = e\<rparr>))"
  by (cases out) (simp_all add: StubQuery_def StubQueryError_def)

lemma queries_registerAll_other:
  "k \<notin> (\<lambda>reg. getQueryHash U (fst reg)) ` set regs \<Longrightarrow>
   queries (registerAll U c regs) k = queries c k"
  unfolding registerAll_def
proof (induction regs arbitrary: c)
  case Nil
  then show ?case by simp
next
  case (Cons reg regs)
  obtain q out where reg: "reg = (q, out)"
    by (cases reg)
  from Cons.prems have "k \<noteq> getQueryHash U q"
    by (auto simp: reg)
  then have "queries (register U c reg) k = queries c k"
    by (simp add: reg queries_register)
  with Cons show ?case
    by simp
qed

lemma Prepare_unstubbed:
  "queryFunc c = None \<Longrightarrow> queries c (getQueryHash U q) = None \<Longrightarrow>
   Prepare U c q =
     (\<lparr>Stmt.result = None, err = None\<rparr>, Some (errors_New (''Query not stubbed: '' @ q)))"
  by (simp add: Prepare_def)

lemma Prepare_stubbed:
  "queryFunc c = None \<Longrightarrow> queries c (getQueryHash U q) = Some s \<Longrightarrow>
   Prepare U c q = (\<lparr>Stmt.result = Query.result s, err = Query.err s\<rparr>, None)"
  by (simp add: Prepare_def)

text \<open>
  Claim C4. On a connection whose override callback is set, \<^verbatim>\<open>Prepare(query)\<close> returns the
  statement made of the pair that the callback returns for the query text as it was given,
  with a nil error; and the result is the same whatever the registry holds.
\<close>

theorem Prepare_override:
  assumes "queryFunc c = Some f"
  shows "Prepare U c query = (\<lparr>Stmt.result = fst (f query), err = snd (f query)\<rparr>, None)
       \<and> Prepare U (c\<lparr>queries := m\<rparr>) query = Prepare U c query"
  using assms by (simp add: Prepare_def split: prod.splits)

text \<open>The callback of the witness returns the length of the text it is given: 9 for the
  9 bytes of the query, while the registry holds the result 7 for this query.\<close>

theorem Prepare_override_witness:
  "queryFunc (StubQuery id (SetQueryFunc NewConn (Some (\<lambda>q. (Some (length q), None))))
       ''SELECT  1'' (Some 7))
     = Some (\<lambda>q. (Some (length q), None))
   \<and> queries (StubQuery id (SetQueryFunc NewConn (Some (\<lambda>q. (Some (length q), None))))
       ''SELECT  1'' (Some 7)) (getQueryHash id ''SELECT  1'')
     = Some \<lparr>Query.result = Some 7, err = None\<rparr>
   \<and> Prepare id (StubQuery id (SetQueryFunc NewConn (Some (\<lambda>q. (Some (length q), None))))
       ''SELECT  1'' (Some 7)) ''SELECT  1''
     = (\<lparr>Stmt.result = Some 9, err = None\<rparr>, None)"
proof -
  let ?f = "\<lambda>q :: string. (Some (length q), None :: error option)"
  let ?c = "StubQuery id (SetQueryFunc NewConn (Some ?f)) ''SELECT  1'' (Some 7)"
  have h: "queryFunc ?c = Some ?f"
    by (simp add: SetQueryFunc_def)
  have "queries ?c (getQueryHash id ''SELECT  1'') = Some \<lparr>Query.result = Some 7, err = None\<rparr>"
    by (simp add: StubQuery_def)
  then show ?thesis
    using h Prepare_override [OF h, of id "''SELECT  1''"] by simp
qed

text \<open>
  Claim C5. On a connection with no override callback, where the key of the query \<open>q\<close> is not
  in the registry and none of the registrations made afterwards has this key,
  \<^verbatim>\<open>Prepare(q)\<close> fails with the error "Query not stubbed: " followed by \<open>q\<close> as it was
  given.
\<close>

theorem Prepare_never_registered:
  assumes "queryFunc c = None"
    and "queries c (getQueryHash U q) = None"
    and "getQueryHash U q \<notin> (\<lambda>reg. getQueryHash U (fst reg)) ` set regs"
  shows "Prepare U (registerAll U c regs) q =
           (\<lparr>Stmt.result = None, err = None\<rparr>,
            Some (errors_New (''Query not stubbed: '' @ q)))"
  using assms by (simp add: Prepare_unstubbed queries_registerAll_other)

theorem Prepare_never_registered_witness:
  "Prepare id (registerAll id NewConn [(''SELECT 2'', Outcome_Result (Some (7::nat)))]) ''SELECT 1'' =
     (\<lparr>Stmt.result = None, err = None\<rparr>, Some (errors_New ''Query not stubbed: SELECT 1''))"
proof -
  let ?regs = "[(''SELECT 2'', Outcome_Result (Some (7::nat)))]"
  have 1: "queryFunc (NewConn :: nat Conn) = None"
    by (simp add: NewConn_def)
  have 2: "queries (NewConn :: nat Conn) (getQueryHash id ''SELECT 1'') = None"
    by (simp add: NewConn_def)
  have 3: "getQueryHash id ''SELECT 1'' \<notin> (\<lambda>reg. getQueryHash id (fst reg)) ` set ?regs"
    using key_SELECT1_neq_SELECT2 by simp
  show ?thesis
    using Prepare_never_registered [OF 1 2 3] by simp
qed

text \<open>
  Claim C6. After \<^verbatim>\<open>StubQueryError(q, E)\<close> on a connection with no override callback, the
  statement that \<^verbatim>\<open>Prepare(q)\<close> returns gives, from \<^verbatim>\<open>Query\<close>, nil rows and the error
  \<open>E\<close> itself.
\<close>

theorem StubQueryError_round_trip:
  assumes "queryFunc c = None"
  shows "Stmt_Query (fst (Prepare U (StubQueryError U c q E) q)) args = (None, E)"
  using assms by (simp add: Prepare_def StubQueryError_def Stmt_Query_def)

theorem StubQueryError_round_trip_witness:
  "queryFunc (NewConn :: nat Conn) = None
   \<and> Stmt_Query (fst (Prepare id
         (StubQueryError id (NewConn :: nat Conn) ''SELECT 1'' (Some (errors_New ''boom'')))
         ''SELECT 1'')) ([] :: nat list) = (None, Some (errors_New ''boom''))"
proof -
  have 1: "queryFunc (NewConn :: nat Conn) = None"
    by (simp add: NewConn_def)
  show ?thesis
    using 1 StubQueryError_round_trip [OF 1] by simp
qed

text \<open>
  Claim C7, as the code has it. Two registrations for the same query text, one after the
  other, each a result or an error: the registry is the one that the second registration
  alone would have made, and the entry of the query is the outcome of the second registration
  only. On a connection with no override callback \<^verbatim>\<open>Prepare\<close> returns that outcome. Of the
  two fields of the entry exactly one is set when the second registration was given a result
  or an error that is not nil, and none is set when it was given nil.
\<close>

theorem register_last_write_wins:
  "queries (register U (register U c (q, a)) (q, b)) = queries (register U c (q, b))
   \<and> queries (register U (register U c (q, a)) (q, b)) (getQueryHash U q) =
       Some (case b of Outcome_Result r \<Rightarrow> \<lparr>Query.result = r, err = None\<rparr>
                     | Outcome_Error e \<Rightarrow> \<lparr>Query.result = None, err = e\<rparr>)
   \<and> (queryFunc c = None \<longrightarrow>
        Prepare U (register U (register U c (q, a)) (q, b)) q =
          (case b of Outcome_Result r \<Rightarrow> (\<lparr>Stmt.result = r, err = None\<rparr>, None)
                   | Outcome_Error e \<Rightarrow> (\<lparr>Stmt.result = None, err = e\<rparr>, None)))
   \<and> (\<exists>s. queries (register U (register U c (q, a)) (q, b)) (getQueryHash U q) = Some s
          \<and> (if (case b of Outcome_Result r \<Rightarrow> r = None | Outcome_Error e \<Rightarrow> e = None)
              then Query.result s = None \<and> Query.err s = None
              else (Query.result s = None) \<noteq> (Query.err s = None)))"
  by (auto simp: queries_register Prepare_def split: outcome.splits)

theorem register_last_write_wins_witness:
  "queryFunc (NewConn :: nat Conn) = None
   \<and> queries (register id (register id (NewConn :: nat Conn)
                 (''SELECT 1'', Outcome_Result (Some 7)))
                 (''SELECT 1'', Outcome_Error (Some (errors_New ''boom''))))
       (getQueryHash id ''SELECT 1'') =
       Some \<lparr>Query.result = None, err = Some (errors_New ''boom'')\<rparr>
   \<and> Prepare id (register id (register id (NewConn :: nat Conn)
                 (''SELECT 1'', Outcome_Result (Some 7)))
                 (''SELECT 1'', Outcome_Error (Some (errors_New ''boom'')))) ''SELECT 1'' =
       (\<lparr>Stmt.result = None, err = Some (errors_New ''boom'')\<rparr>, None)"
proof -
  have 1: "queryFunc (NewConn :: nat Conn) = None"
    by (simp add: NewConn_def)
  show ?thesis
    using 1 register_last_write_wins [of id "NewConn :: nat Conn" "''SELECT 1''"
        "Outcome_Result (Some 7)" "Outcome_Error (Some (errors_New ''boom''))",
        unfolded outcome.case]
    by blast
qed

text \<open>
  Claim C7 as the specification states it fails on two counts. A registration given nil,
  \<^verbatim>\<open>StubQueryError(q, nil)\<close> after \<^verbatim>\<open>StubQuery(q, rows)\<close>, leaves an entry with neither field
  set, where the claim has exactly one. And on a connection with an override callback the
  second outcome is not what \<^verbatim>\<open>Prepare\<close> returns: it returns what the callback gives, here
  the query text itself as the rows.
\<close>

theorem register_nil_outcome:
  "queries (StubQueryError id (StubQuery id NewConn ''SELECT 1'' (Some ''rows'')) ''SELECT 1'' None)
     (getQueryHash id ''SELECT 1'') = Some \<lparr>Query.result = None, err = None\<rparr>
   \<and> Prepare id
       (StubQueryError id
          (StubQuery id (SetQueryFunc NewConn (Some (prod.swap \<circ> Pair None \<circ> Some)))
             ''SELECT 1'' (Some ''rows''))
          ''SELECT 1'' (Some (errors_New ''boom'')))
       ''SELECT 1'' = (\<lparr>Stmt.result = Some ''SELECT 1'', err = None\<rparr>, None)"
  by (simp add: StubQueryError_def StubQuery_def SetQueryFunc_def NewConn_def Prepare_def)

text \<open>
  Claim C10. After \<^verbatim>\<open>StubQueryError(q, E)\<close> on a connection with no override callback,
  \<^verbatim>\<open>Prepare(q)\<close> returns a nil error and the statement that holds \<open>E\<close>, which comes out
  of \<^verbatim>\<open>Query\<close>; and the error of \<^verbatim>\<open>Prepare\<close> is not nil exactly when there is no
  override callback and the key of the query is not in the registry.
\<close>

theorem Prepare_error_only_unstubbed:
  "(queryFunc c = None \<longrightarrow>
      snd (Prepare U (StubQueryError U c q E) q) = None
    \<and> fst (Prepare U (StubQueryError U c q E) q) = \<lparr>Stmt.result = None, err = E\<rparr>
    \<and> Stmt_Query (fst (Prepare U (StubQueryError U c q E) q)) args = (None, E))
   \<and> (snd (Prepare U c' q') \<noteq> None \<longleftrightarrow>
        queryFunc c' = None \<and> queries c' (getQueryHash U q') = None)"
  by (simp add: Prepare_def StubQueryError_def Stmt_Query_def split: option.splits prod.splits)

theorem Prepare_error_only_unstubbed_witness:
  "queryFunc (NewConn :: nat Conn) = None
   \<and> snd (Prepare id (StubQueryError id (NewConn :: nat Conn) ''SELECT 1''
                       (Some (errors_New ''boom''))) ''SELECT 1'') = None
   \<and> Stmt_Query (fst (Prepare id (StubQueryError id (NewConn :: nat Conn) ''SELECT 1''
                       (Some (errors_New ''boom''))) ''SELECT 1'')) ([] :: nat list) =
       (None, Some (errors_New ''boom''))
   \<and> snd (Prepare id (NewConn :: nat Conn) ''SELECT 1'') \<noteq> None"
proof -
  have 1: "queryFunc (NewConn :: nat Conn) = None"
    by (simp add: NewConn_def)
  have 2: "queries (NewConn :: nat Conn) (getQueryHash id ''SELECT 1'') = None"
    by (simp add: NewConn_def)
  show ?thesis
    using 1 2
      Prepare_error_only_unstubbed [of "NewConn :: nat Conn" id "''SELECT 1''"
        "Some (errors_New ''boom'')" "[] :: nat list" "NewConn :: nat Conn" "''SELECT 1''"]
    by (auto simp: Stmt_Query_def)
qed

section \<open>Properties of Rows\<close>

lemma sint_word_of_int:
  assumes "- (2 ^ (LENGTH('w) - 1)) \<le> k" and "k < 2 ^ (LENGTH('w) - 1)"
  shows "sint (word_of_int k :: 'w::len word) = k"
  using assms by (simp add: sint_sbintrunc' signed_take_bit_int_eq_self)

lemma sint_MaxInt: "sint (MaxInt :: 'w::len word) = 2 ^ (LENGTH('w) - 1) - 1"
proof -
  have "- (2 ^ (LENGTH('w) - 1)) \<le> (2 ^ (LENGTH('w) - 1) - 1 :: int)"
    by (rule order_trans [of _ 0]) simp_all
  then show ?thesis
    unfolding MaxInt_def by (intro sint_word_of_int) simp_all
qed

lemma sint_MinInt: "sint (MinInt :: 'w::len word) = - (2 ^ (LENGTH('w) - 1))"
  unfolding MinInt_def by (intro sint_word_of_int) simp_all

lemma sint_succ:
  fixes x :: "'w::len word"
  assumes "sint x < sint (MaxInt :: 'w word)"
  shows "sint (x + 1) = sint x + 1"
proof -
  have "x + 1 = word_of_int (sint x + 1)"
    by simp
  moreover have "- (2 ^ (LENGTH('w) - 1)) \<le> sint x + 1"
    using sint_ge [of x] by simp
  moreover have "sint x + 1 < 2 ^ (LENGTH('w) - 1)"
    using assms by (simp add: sint_MaxInt)
  ultimately show ?thesis
    using sint_word_of_int [of "sint x + 1", where 'w = 'w] by simp
qed

lemma MaxInt_succ: "(MaxInt :: 'w::len word) + 1 = MinInt"
proof -
  have "(MaxInt :: 'w word) + 1 = word_of_int (2 ^ (LENGTH('w) - 1))"
    by (simp add: MaxInt_def)
  also have "\<dots> = word_of_int (- (2 ^ (LENGTH('w) - 1)) + 2 ^ LENGTH('w))"
    by (cases "LENGTH('w)") (simp_all)
  also have "\<dots> = MinInt"
    by (simp add: MinInt_def)
  finally show ?thesis .
qed

lemma sint_of_nat:
  assumes "int k \<le> sint (MaxInt :: 'w::len word)"
  shows "sint (of_nat k :: 'w word) = int k"
proof -
  have "(of_nat k :: 'w word) = word_of_int (int k)"
    by simp
  moreover have "- (2 ^ (LENGTH('w) - 1)) \<le> int k"
    by (rule order_trans [of _ 0]) simp_all
  moreover have "int k < 2 ^ (LENGTH('w) - 1)"
    using assms by (simp add: sint_MaxInt)
  ultimately show ?thesis
    using sint_word_of_int [of "int k", where 'w = 'w] by simp
qed

lemma sint_add_of_nat:
  fixes x :: "'w::len word"
  assumes "sint x + int n \<le> sint (MaxInt :: 'w word)"
  shows "sint (x + of_nat n) = sint x + int n"
proof -
  have "x + of_nat n = word_of_int (sint x + int n)"
    by simp
  moreover have "- (2 ^ (LENGTH('w) - 1)) \<le> sint x + int n"
    using sint_ge [of x] by simp
  moreover have "sint x + int n < 2 ^ (LENGTH('w) - 1)"
    using assms by (simp add: sint_MaxInt)
  ultimately show ?thesis
    using sint_word_of_int [of "sint x + int n", where 'w = 'w] by simp
qed

lemma copyRow_fits:
  "i + length row \<le> length dest \<Longrightarrow>
   copyRow i row dest = (None, take i dest @ row @ drop (i + length row) dest)"
proof (induction row arbitrary: i dest)
  case Nil
  then show ?case by simp
next
  case (Cons col row)
  then have "i < length dest"
    by simp
  moreover have
    "take (i + 1) (dest[i := col]) @ row @ drop (i + 1 + length row) (dest[i := col]) =
     take i dest @ col # row @ drop (i + length (col # row)) dest"
    using \<open>i < length dest\<close> by (simp add: take_Suc_conv_app_nth)
  ultimately show ?case
    using Cons.IH [of "i + 1" "dest[i := col]"] Cons.prems by simp
qed

lemma copyRow_same_length: "length row = length dest \<Longrightarrow> copyRow 0 row dest = (None, row)"
  using copyRow_fits [of 0 row dest] by simp

lemma Next_row:
  fixes rs :: "'w::len Rows"
  assumes "sint (pos rs) = int k" and "k < length (rows rs)"
    and "int (length (rows rs)) \<le> sint (MaxInt :: 'w word)"
    and "length (rows rs ! k) = length dest"
  shows "Next rs dest = (Inr None, rs\<lparr>pos := pos rs + 1\<rparr>, rows rs ! k)"
proof -
  have "sint (pos rs + 1) = int k + 1"
    using assms by (simp add: sint_succ)
  then show ?thesis
    using assms by (simp add: Next_def Let_def copyRow_same_length)
qed

lemma Next_EOF:
  fixes rs :: "'w::len Rows"
  assumes "int (length (rows rs)) \<le> sint (pos rs)" and "sint (pos rs) < sint (MaxInt :: 'w word)"
  shows "Next rs dest = (Inr (Some io_EOF), rs\<lparr>pos := pos rs + 1, closed := True\<rparr>, dest)"
  using assms by (simp add: Next_def Let_def sint_succ)

lemma Next_each_all:
  fixes rs :: "'w::len Rows"
  assumes "sint (pos rs) = int k" and "k + n = length (rows rs)" and "length dests = Suc n"
    and "int (length (rows rs)) < sint (MaxInt :: 'w word)"
    and "\<forall>row\<in>set (rows rs). length row = w" and "\<forall>dest\<in>set dests. length dest = w"
  shows "Next_each rs dests =
           (map (\<lambda>row. (Inr None, row)) (drop k (rows rs)) @ [(Inr (Some io_EOF), last dests)],
            rs\<lparr>pos := pos rs + of_nat (Suc n), closed := True\<rparr>)"
  using assms
proof (induction n arbitrary: rs k dests)
  case 0
  then obtain dest where "dests = [dest]"
    by (cases dests) auto
  with 0 show ?case
    by (simp add: Next_EOF)
next
  case (Suc n)
  then obtain dest dests' where dests: "dests = dest # dests'" and len': "length dests' = Suc n"
    by (cases dests) auto
  let ?row = "rows rs ! k"
  let ?rs1 = "rs\<lparr>pos := pos rs + 1\<rparr>"
  have k: "k < length (rows rs)"
    using Suc.prems by simp
  then have len: "length ?row = length dest"
    using Suc.prems dests by simp
  have step: "Next rs dest = (Inr None, ?rs1, ?row)"
    using Suc.prems(1) k _ len by (rule Next_row) (use Suc.prems in simp)
  have pos1: "sint (pos ?rs1) = int (Suc k)"
    using Suc.prems k by (simp add: sint_succ)
  have ih: "Next_each ?rs1 dests' =
           (map (\<lambda>row. (Inr None, row)) (drop (Suc k) (rows ?rs1))
              @ [(Inr (Some io_EOF), last dests')],
            ?rs1\<lparr>pos := pos ?rs1 + of_nat (Suc n), closed := True\<rparr>)"
    using pos1 Suc.prems len' dests by (intro Suc.IH) simp_all
  have drop: "drop k (rows rs) = ?row # drop (Suc k) (rows rs)"
    using k by (simp add: Cons_nth_drop_Suc)
  have "Next_each rs dests =
          (case Next_each ?rs1 dests' of (out, rs2) \<Rightarrow> ((Inr None, ?row) # out, rs2))"
    by (simp only: dests Next_each.simps(2) step prod.case)
  also have "\<dots> =
          (map (\<lambda>row. (Inr None, row)) (drop k (rows rs)) @ [(Inr (Some io_EOF), last dests)],
            rs\<lparr>pos := pos rs + of_nat (Suc (Suc n)), closed := True\<rparr>)"
    using len' by (simp only: ih prod.case) (auto simp: drop dests ac_simps)
  finally show ?case .
qed

text \<open>
  Claim C2. A \<^verbatim>\<open>Rows\<close> with its cursor at 0 and N rows, each of as many cells as there
  are columns, is given N + 1 destination buffers of that length, one call of \<^verbatim>\<open>Next\<close>
  each: the first N calls return nil and leave the rows in the buffers, the k-th row in the
  k-th buffer, and the last call returns \<^verbatim>\<open>io.EOF\<close> and leaves its buffer as it was.
  \<^verbatim>\<open>io.EOF\<close> is a value of its own, different from every other error. The number of rows
  is below \<^verbatim>\<open>math.MaxInt\<close>, as the length of every Go slice of slices is: \<^verbatim>\<open>len\<close>
  returns an \<^verbatim>\<open>int\<close>, and an element of \<^verbatim>\<open>rs.rows\<close> takes more than one byte of the
  address space.
\<close>

theorem Next_iteration:
  fixes rs :: "'w::len Rows"
  assumes "pos rs = 0"
    and "int (length (rows rs)) < sint (MaxInt :: 'w word)"
    and "\<forall>row\<in>set (rows rs). length row = length (columns rs)"
    and "length dests = Suc (length (rows rs))"
    and "\<forall>dest\<in>set dests. length dest = length (columns rs)"
  shows "fst (Next_each rs dests) =
           map (\<lambda>row. (Inr None, row)) (rows rs) @ [(Inr (Some io_EOF), last dests)]
       \<and> (\<forall>m. io_EOF \<noteq> errors_New m) \<and> (\<forall>e. io_EOF \<noteq> CallerError e)"
  using assms Next_each_all [of rs 0 "length (rows rs)" dests "length (columns rs)"] by simp

theorem Next_iteration_witness:
  "fst (Next_each
      \<lparr>closed = False, columns = [''name'', ''created_at''],
       rows = [[Value_string ''alice'',
                Value_time \<lparr>year = 2023, month = 1, day = 2, hour = 3, minute = 4, second = 5\<rparr>],
               [Value_string ''bob'', Value_nil]],
       pos = 0 :: 64 word\<rparr>
      [[Value_nil, Value_nil], [Value_nil, Value_nil], [Value_nil, Value_string ''kept'']]) =
     [(Inr None, [Value_string ''alice'',
                Value_time \<lparr>year = 2023, month = 1, day = 2, hour = 3, minute = 4, second = 5\<rparr>]),
      (Inr None, [Value_string ''bob'', Value_nil]),
      (Inr (Some io_EOF), [Value_nil, Value_string ''kept''])]"
proof -
  let ?rs = "\<lparr>closed = False, columns = [''name'', ''created_at''],
       rows = [[Value_string ''alice'',
                Value_time \<lparr>year = 2023, month = 1, day = 2, hour = 3, minute = 4, second = 5\<rparr>],
               [Value_string ''bob'', Value_nil]],
       pos = 0 :: 64 word\<rparr>"
  let ?dests = "[[Value_nil, Value_nil], [Value_nil, Value_nil], [Value_nil, Value_string ''kept'']]"
  have 1: "pos ?rs = 0"
    by simp
  have 2: "int (length (rows ?rs)) < sint (MaxInt :: 64 word)"
    by (simp add: sint_MaxInt)
  have 3: "\<forall>row\<in>set (rows ?rs). length row = length (columns ?rs)"
    by simp
  have 4: "length ?dests = Suc (length (rows ?rs))"
    by simp
  have 5: "\<forall>dest\<in>set ?dests. length dest = length (columns ?rs)"
    by simp
  show ?thesis
    using Next_iteration [OF 1 2 3 4 5] by simp
qed

lemma rows_Next [simp]: "rows (fst (snd (Next rs dest))) = rows rs"
  by (simp add: Next_def Let_def split: prod.splits option.splits)

lemma columns_Next [simp]: "columns (fst (snd (Next rs dest))) = columns rs"
  by (simp add: Next_def Let_def split: prod.splits option.splits)

lemma pos_Next [simp]: "pos (fst (snd (Next rs dest))) = pos rs + 1"
  by (simp add: Next_def Let_def split: prod.splits option.splits)

lemma closed_Next: "closed rs \<Longrightarrow> closed (fst (snd (Next rs dest)))"
  by (simp add: Next_def Let_def split: prod.splits option.splits)

lemma call_invariants:
  "rows (call rs c) = rows rs \<and> columns (call rs c) = columns rs
   \<and> pos (call rs c) = pos rs + of_nat (Next_calls [c]) \<and> (closed rs \<longrightarrow> closed (call rs c))"
  by (cases c) (simp_all add: closed_Next Next_calls_def)

lemma calls_invariants:
  "rows (foldl call rs cs) = rows rs \<and> columns (foldl call rs cs) = columns rs
   \<and> pos (foldl call rs cs) = pos rs + of_nat (Next_calls cs)
   \<and> (closed rs \<longrightarrow> closed (foldl call rs cs))"
proof (induction cs arbitrary: rs)
  case Nil
  then show ?case by (simp add: Next_calls_def)
next
  case (Cons c cs)
  show ?case
    using Cons [of "call rs c"] call_invariants [of rs c] by (auto simp: Next_calls_def)
qed

lemma Next_calls_append: "Next_calls (cs @ cs') = Next_calls cs + Next_calls cs'"
  by (simp add: Next_calls_def)

text \<open>
  Claim C8, with the limit of the machine integer. Along any sequence of calls of
  \<^verbatim>\<open>Next\<close>, \<^verbatim>\<open>Columns\<close>, \<^verbatim>\<open>Close\<close> and \<^verbatim>\<open>Err\<close>, \<^verbatim>\<open>Columns\<close> returns the column names
  of the start. As long as the cursor at the start plus the number of calls of \<^verbatim>\<open>Next\<close>
  made does not exceed \<^verbatim>\<open>math.MaxInt\<close>, the cursor never decreases. Once the \<^verbatim>\<open>Rows\<close>
  is exhausted it stays exhausted and the next call of \<^verbatim>\<open>Next\<close> returns \<^verbatim>\<open>io.EOF\<close>, as
  long as the cursor stays below \<^verbatim>\<open>math.MaxInt\<close>.
\<close>

theorem Rows_cursor_invariant:
  fixes rs :: "'w::len Rows"
  shows
  "(sint (pos rs) + int (Next_calls (cs @ cs')) \<le> sint (MaxInt :: 'w word) \<longrightarrow>
      sint (pos (foldl call rs cs)) \<le> sint (pos (foldl call rs (cs @ cs'))))
   \<and> Columns (foldl call rs cs) = columns rs
   \<and> (exhausted rs \<and> sint (pos rs) + int (Next_calls cs) < sint (MaxInt :: 'w word) \<longrightarrow>
        exhausted (foldl call rs cs)
      \<and> fst (Next (foldl call rs cs) dest) = Inr (Some io_EOF)
      \<and> exhausted (fst (snd (Next (foldl call rs cs) dest))))"
proof -
  let ?rs = "foldl call rs cs"
  note inv = calls_invariants [of rs cs]
  have mono: "sint (pos ?rs) \<le> sint (pos (foldl call rs (cs @ cs')))"
    if "sint (pos rs) + int (Next_calls (cs @ cs')) \<le> sint (MaxInt :: 'w word)"
  proof -
    have "sint (pos ?rs) = sint (pos rs) + int (Next_calls cs)"
      using that inv by (simp add: sint_add_of_nat Next_calls_append)
    moreover have "sint (pos (foldl call rs (cs @ cs'))) = sint (pos rs) + int (Next_calls (cs @ cs'))"
      using that calls_invariants [of rs "cs @ cs'"] by (simp only: sint_add_of_nat)
    ultimately show ?thesis
      by (simp add: Next_calls_append)
  qed
  have ex: "exhausted ?rs \<and> sint (pos ?rs) < sint (MaxInt :: 'w word)"
    if "exhausted rs" and "sint (pos rs) + int (Next_calls cs) < sint (MaxInt :: 'w word)"
  proof -
    have "sint (pos ?rs) = sint (pos rs) + int (Next_calls cs)"
      using that inv by (simp add: sint_add_of_nat)
    then show ?thesis
      using that inv by (auto simp: exhausted_def)
  qed
  have nxt: "fst (Next r dest) = Inr (Some io_EOF) \<and> exhausted (fst (snd (Next r dest)))"
    if "exhausted r" and "sint (pos r) < sint (MaxInt :: 'w word)" for r :: "'w Rows"
    using that by (simp add: exhausted_def Next_EOF sint_succ)
  show ?thesis
    using mono ex nxt inv by (simp add: Columns_def)
qed

theorem Rows_cursor_invariant_witness:
  "exhausted \<lparr>closed = True, columns = [''name''], rows = [[Value_string ''alice'']],
              pos = 2 :: 64 word\<rparr>
   \<and> sint (pos (foldl call
         \<lparr>closed = True, columns = [''name''], rows = [[Value_string ''alice'']],
          pos = 2 :: 64 word\<rparr>
         [Call_Close, Call_Next [Value_nil]])) = 3
   \<and> sint (pos (foldl call
         \<lparr>closed = True, columns = [''name''], rows = [[Value_string ''alice'']],
          pos = 2 :: 64 word\<rparr>
         ([Call_Close, Call_Next [Value_nil]] @ [Call_Columns, Call_Next [Value_nil]]))) = 4
   \<and> exhausted (foldl call
         \<lparr>closed = True, columns = [''name''], rows = [[Value_string ''alice'']],
          pos = 2 :: 64 word\<rparr>
         [Call_Close, Call_Next [Value_nil]])
   \<and> fst (Next (foldl call
         \<lparr>closed = True, columns = [''name''], rows = [[Value_string ''alice'']],
          pos = 2 :: 64 word\<rparr>
         [Call_Close, Call_Next [Value_nil]]) [Value_nil]) = Inr (Some io_EOF)
   \<and> Columns (foldl call
         \<lparr>closed = True, columns = [''name''], rows = [[Value_string ''alice'']],
          pos = 2 :: 64 word\<rparr>
         [Call_Close, Call_Next [Value_nil]]) = [''name'']"
proof -
  let ?rs = "\<lparr>closed = True, columns = [''name''], rows = [[Value_string ''alice'']],
              pos = 2 :: 64 word\<rparr>"
  let ?cs = "[Call_Close, Call_Next [Value_nil]]"
  let ?cs' = "[Call_Columns, Call_Next [Value_nil]]"
  have 1: "exhausted ?rs"
    by (simp add: exhausted_def)
  have 2: "sint (pos ?rs) + int (Next_calls (?cs @ ?cs')) \<le> sint (MaxInt :: 64 word)"
    by (simp add: Next_calls_def sint_MaxInt)
  have 3: "sint (pos ?rs) + int (Next_calls ?cs) < sint (MaxInt :: 64 word)"
    by (simp add: Next_calls_def sint_MaxInt)
  have 4: "sint (pos (foldl call ?rs ?cs)) = 3"
    by simp
  have 5: "sint (pos (foldl call ?rs (?cs @ ?cs'))) = 4"
    by simp
  show ?thesis
    using 1 2 3 4 5 Rows_cursor_invariant [of ?rs ?cs ?cs' "[Value_nil]"]
    by simp
qed

lemma calls_Next_EOF:
  fixes rs :: "'w::len Rows"
  assumes "int (length (rows rs)) \<le> sint (pos rs)"
    and "sint (pos rs) + int (Suc n) \<le> sint (MaxInt :: 'w word)"
  shows "foldl call rs (replicate (Suc n) (Call_Next dest)) =
           rs\<lparr>pos := pos rs + of_nat (Suc n), closed := True\<rparr>"
  using assms
proof (induction n)
  case 0
  then show ?case
    by (simp add: Next_EOF)
next
  case (Suc n)
  let ?rs = "rs\<lparr>pos := pos rs + of_nat (Suc n), closed := True\<rparr>"
  have "foldl call rs (replicate (Suc (Suc n)) (Call_Next dest)) =
          call (foldl call rs (replicate (Suc n) (Call_Next dest))) (Call_Next dest)"
    by (simp only: replicate_Suc [of "Suc n"] replicate_append_same [symmetric] foldl_append foldl.simps)
  also have "\<dots> = fst (snd (Next ?rs dest))"
    using Suc by simp
  also have "sint (pos ?rs) = sint (pos rs) + int (Suc n)"
    using Suc.prems sint_add_of_nat [of "pos rs" "Suc n"] by simp
  then have "fst (snd (Next ?rs dest)) = rs\<lparr>pos := pos rs + of_nat (Suc (Suc n)), closed := True\<rparr>"
    using Suc.prems by (simp add: Next_EOF ac_simps)
  finally show ?case .
qed

lemma Next_at_MaxInt:
  fixes rs :: "'w::len Rows"
  assumes "pos rs = MaxInt" and "int (length (rows rs)) \<le> sint (MaxInt :: 'w word)"
  shows "fst (Next rs dest) = Inl (IndexOutOfRange (sint (MaxInt :: 'w word)) (length (rows rs)))"
    and "pos (fst (snd (Next rs dest))) = MinInt"
proof -
  have "sint ((MaxInt :: 'w word) + 1) < 0"
    by (simp only: MaxInt_succ sint_MinInt) simp
  then show "fst (Next rs dest) = Inl (IndexOutOfRange (sint (MaxInt :: 'w word)) (length (rows rs)))"
    using assms by (simp add: Next_def Let_def)
  show "pos (fst (snd (Next rs dest))) = MinInt"
    using assms by (simp add: MaxInt_succ)
qed

text \<open>
  Claim C8 as the specification states it, without the limit, fails where the cursor
  reaches \<^verbatim>\<open>math.MaxInt\<close>. With an \<^verbatim>\<open>int\<close> of 32 bits, a \<^verbatim>\<open>Rows\<close> with no rows is
  exhausted after the first call of \<^verbatim>\<open>Next\<close>, and after 2147483647 calls its cursor is
  \<^verbatim>\<open>math.MaxInt\<close>. The next call wraps the cursor to \<^verbatim>\<open>math.MinInt\<close>: the cursor has
  decreased, the test \<^verbatim>\<open>rs.pos > len(rs.rows)\<close> fails, and \<^verbatim>\<open>rs.rows[rs.pos-1]\<close> panics with
  the index 2147483647 out of range, where the claim has \<^verbatim>\<open>io.EOF\<close>.
\<close>

theorem Rows_cursor_wraps:
  "foldl call \<lparr>closed = False, columns = [''name''], rows = [], pos = 0 :: 32 word\<rparr>
     (replicate 2147483647 (Call_Next [])) =
     \<lparr>closed = True, columns = [''name''], rows = [], pos = 2147483647 :: 32 word\<rparr>
   \<and> exhausted \<lparr>closed = True, columns = [''name''], rows = [], pos = 2147483647 :: 32 word\<rparr>
   \<and> fst (Next \<lparr>closed = True, columns = [''name''], rows = [], pos = 2147483647 :: 32 word\<rparr> [])
       = Inl (IndexOutOfRange 2147483647 0)
   \<and> sint (pos (fst (snd (Next
         \<lparr>closed = True, columns = [''name''], rows = [], pos = 2147483647 :: 32 word\<rparr> []))))
       = - 2147483648
   \<and> sint (pos \<lparr>closed = True, columns = [''name''], rows = [], pos = 2147483647 :: 32 word\<rparr>)
       = 2147483647"
proof -
  let ?rs = "\<lparr>closed = False, columns = [''name''], rows = [], pos = 0 :: 32 word\<rparr>"
  have "foldl call ?rs (replicate (Suc 2147483646) (Call_Next [])) =
          ?rs\<lparr>pos := pos ?rs + of_nat (Suc 2147483646), closed := True\<rparr>"
    by (rule calls_Next_EOF) (simp_all add: sint_MaxInt)
  then have "foldl call ?rs (replicate 2147483647 (Call_Next [])) =
     \<lparr>closed = True, columns = [''name''], rows = [], pos = 2147483647 :: 32 word\<rparr>"
    by simp
  then show ?thesis
    by (simp add: exhausted_def Next_def Let_def)
qed

section \<open>Properties of RowsFromCSVString\<close>

lemma fillRow_fits:
  "i + length vs \<le> length row \<Longrightarrow>
   fillRow i vs row = Inr (take i row @ map cellValue vs @ drop (i + length vs) row)"
proof (induction vs arbitrary: i row)
  case Nil
  then show ?case by simp
next
  case (Cons v vs)
  then have i: "i < length row"
    by simp
  have "take (i + 1) (row[i := cellValue v]) @ map cellValue vs
          @ drop (i + 1 + length vs) (row[i := cellValue v]) =
        take i row @ map cellValue (v # vs) @ drop (i + length (v # vs)) row"
    using i by (simp add: take_Suc_conv_app_nth)
  then show ?case
    using Cons.IH [of "i + 1" "row[i := cellValue v]"] Cons.prems i by simp
qed

lemma fillRow_too_long:
  "i \<le> length row \<Longrightarrow> length row < i + length vs \<Longrightarrow>
   fillRow i vs row = Inl (IndexOutOfRange (int (length row)) (length row))"
proof (induction vs arbitrary: i row)
  case Nil
  then show ?case by simp
next
  case (Cons v vs)
  show ?case
  proof (cases "i < length row")
    case True
    then show ?thesis
      using Cons.IH [of "i + 1" "row[i := cellValue v]"] Cons.prems by simp
  next
    case False
    with Cons.prems have "i = length row"
      by simp
    then show ?thesis
      by simp
  qed
qed

lemma fillRow_new_row:
  "fillRow 0 r (replicate n Value_nil) =
     (if length r \<le> n then Inr (rowOf n r) else Inl (IndexOutOfRange (int n) n))"
  using fillRow_fits [of 0 r "replicate n Value_nil"]
    fillRow_too_long [of 0 "replicate n Value_nil" r]
  by (simp add: rowOf_def)

lemma readLoop_stops:
  "csv_Read rd = ((r, e), rd') \<Longrightarrow> e \<noteq> None \<or> r = None \<Longrightarrow> readLoop rd rs = Inr rs"
  by (subst readLoop.simps) auto

lemma readLoop_goodRecords:
  "readLoop rd rs =
     (if \<forall>r\<in>set (goodRecords rd). length r \<le> length (columns rs)
      then Inr (rs\<lparr>rows := rows rs @ map (rowOf (length (columns rs))) (goodRecords rd)\<rparr>)
      else Inl (IndexOutOfRange (int (length (columns rs))) (length (columns rs))))"
proof (induction rd arbitrary: rs rule: goodRecords.induct)
  case (1 rd)
  obtain r e rd' where read: "csv_Read rd = ((r, e), rd')"
    by (metis prod.exhaust)
  show ?case
  proof (cases "e \<noteq> None \<or> r = None")
    case True
    with read have "goodRecords rd = []"
      by (subst goodRecords.simps) auto
    with read True show ?thesis
      by (simp add: readLoop_stops)
  next
    case False
    then obtain fs where r: "r = Some fs" and e: "e = None"
      by auto
    have good: "goodRecords rd = fs # goodRecords rd'"
      using read r e by (subst goodRecords.simps) simp
    show ?thesis
    proof (cases "length fs \<le> length (columns rs)")
      case fits: True
      let ?rs = "rs\<lparr>rows := rows rs @ [rowOf (length (columns rs)) fs]\<rparr>"
      have "readLoop rd rs = readLoop rd' ?rs"
        using read r e fits by (subst readLoop.simps) (simp add: fillRow_new_row)
      also have "\<dots> =
        (if \<forall>r\<in>set (goodRecords rd'). length r \<le> length (columns ?rs)
         then Inr (?rs\<lparr>rows := rows ?rs @ map (rowOf (length (columns ?rs))) (goodRecords rd')\<rparr>)
         else Inl (IndexOutOfRange (int (length (columns ?rs))) (length (columns ?rs))))"
        using read False by (intro "1.IH") auto
      finally show ?thesis
        using fits by (simp add: good)
    next
      case False
      then have "readLoop rd rs =
          Inl (IndexOutOfRange (int (length (columns rs))) (length (columns rs)))"
        using read r e by (subst readLoop.simps) (simp add: fillRow_new_row)
      with False show ?thesis
        by (auto simp: good)
    qed
  qed
qed


lemma length_rowOf: "length r \<le> n \<Longrightarrow> length (rowOf n r) = n"
  by (simp add: rowOf_def)

lemma RowsFromCSVString_shape:
  assumes "RowsFromCSVString cols s = Inr rs"
  shows "columns rs = cols \<and> pos rs = 0 \<and> \<not> closed rs
       \<and> (\<forall>row\<in>set (rows rs). length row = length cols)"
proof -
  let ?good = "goodRecords (csv_NewReader (TrimSpace s))"
  have fits: "\<forall>r\<in>set ?good. length r \<le> length cols"
    using assms by (auto simp: RowsFromCSVString_def readLoop_goodRecords split: if_splits)
  then have "rs = \<lparr>closed = False, columns = cols, rows = map (rowOf (length cols)) ?good, pos = 0\<rparr>"
    using assms by (simp add: RowsFromCSVString_def readLoop_goodRecords)
  with fits show ?thesis
    by (auto simp: length_rowOf)
qed

lemma RowsFromCSVString_panic:
  "(\<exists>p. RowsFromCSVString cols s = Inl p) \<longleftrightarrow>
   (\<exists>r\<in>set (goodRecords (csv_NewReader (TrimSpace s))). length cols < length r)"
  by (auto simp: RowsFromCSVString_def readLoop_goodRecords not_le)

lemma csv_Read_blank_line:
  assumes "isBlank l"
  shows "csv_Read (r\<lparr>lines := l # ls\<rparr>) = csv_Read (r\<lparr>lines := ls\<rparr>)"
proof (cases "dropWhile isBlank ls")
  case Nil
  with assms show ?thesis
    by (simp add: csv_Read_def del: dropWhile_eq_Nil_conv)
next
  case (Cons line rest)
  obtain fs e rest' where "parseField line rest = (fs, e, rest')"
    by (cases "parseField line rest")
  with Cons assms show ?thesis
    by (simp add: csv_Read_def)
qed

lemma cellValue_text:
  "\<not> timeRegex_MatchString (TrimSpace v) \<Longrightarrow> cellValue v = Value_string (TrimSpace v)"
  by (simp add: cellValue_def)

lemma matchAll_length: "matchAll ps v \<Longrightarrow> length v = length ps"
  by (induction ps v rule: matchAll.induct) simp_all

lemma parseLayout_length_10:
  assumes "length v = 10"
  shows "\<exists>e. parseLayout v = Inl e"
proof -
  from assms obtain c0 c1 c2 c3 c4 c5 c6 c7 c8 c9
    where v: "v = [c0, c1, c2, c3, c4, c5, c6, c7, c8, c9]"
    by (auto simp: numeral_eq_Suc length_Suc_conv)
  show ?thesis
    unfolding v parseLayout_def getyear_def skip_def bindE_def
    by (simp split: sum.splits)
qed

lemma cellValue_date_only:
  assumes "matchAll datePattern (TrimSpace v)"
  shows "cellValue v = Value_time zeroTime"
proof -
  have "length (TrimSpace v) = 10"
    using matchAll_length [OF assms] by (simp add: datePattern_def)
  then obtain e where "parseLayout (TrimSpace v) = Inl e"
    using parseLayout_length_10 by blast
  then show ?thesis
    using assms by (simp add: cellValue_def timeRegex_MatchString_def time_Parse_def)
qed

lemma isDigit_not_separator:
  "isDigit c \<Longrightarrow> c \<noteq> CHR '' '' \<and> c \<noteq> CHR '':'' \<and> c \<noteq> CHR ''-''"
  by (auto simp: isDigit_def byte_def)

lemma cellValue_date_time:
  assumes v: "TrimSpace v =
      [y1, y2, y3, y4, CHR ''-'', m1, m2, CHR ''-'', d1, d2, CHR '' '',
       h1, h2, CHR '':'', n1, n2, CHR '':'', s1, s2]"
    and digits: "list_all isDigit [y1, y2, y3, y4, m1, m2, d1, d2, h1, h2, n1, n2, s1, s2]"
    and mo: "1 \<le> digitVal m1 * 10 + digitVal m2" "digitVal m1 * 10 + digitVal m2 \<le> 12"
    and d: "1 \<le> digitVal d1 * 10 + digitVal d2"
      "digitVal d1 * 10 + digitVal d2 \<le>
         daysIn (digitVal m1 * 10 + digitVal m2)
           (((digitVal y1 * 10 + digitVal y2) * 10 + digitVal y3) * 10 + digitVal y4)"
    and h: "digitVal h1 * 10 + digitVal h2 < 24"
    and n: "digitVal n1 * 10 + digitVal n2 < 60"
    and s: "digitVal s1 * 10 + digitVal s2 < 60"
  shows "cellValue v = Value_time
           \<lparr>year = ((digitVal y1 * 10 + digitVal y2) * 10 + digitVal y3) * 10 + digitVal y4,
            month = digitVal m1 * 10 + digitVal m2,
            day = digitVal d1 * 10 + digitVal d2,
            hour = digitVal h1 * 10 + digitVal h2,
            minute = digitVal n1 * 10 + digitVal n2,
            second = digitVal s1 * 10 + digitVal s2\<rparr>"
proof -
  have m: "timeRegex_MatchString (TrimSpace v)"
    using digits
    by (simp add: v timeRegex_MatchString_def datePattern_def timePattern_def isReSpace_def
        byte_def)
  have "parseLayout (TrimSpace v) = Inr
           \<lparr>year = ((digitVal y1 * 10 + digitVal y2) * 10 + digitVal y3) * 10 + digitVal y4,
            month = digitVal m1 * 10 + digitVal m2,
            day = digitVal d1 * 10 + digitVal d2,
            hour = digitVal h1 * 10 + digitVal h2,
            minute = digitVal n1 * 10 + digitVal n2,
            second = digitVal s1 * 10 + digitVal s2\<rparr>"
    using digits mo d h n s
    by (simp add: v parseLayout_def getyear_def skip_def bindE_def isDigit_not_separator) arith
  with m show ?thesis
    by (simp add: cellValue_def time_Parse_def)
qed

lemmas csv_eval =
  RowsFromCSVString_def readLoop.simps csv_NewReader_def csv_Read_def
  parseField.simps parseQuoted.simps cut_def dropNL_def isBlank_def
  endOfLine_def endOfInput_def comma_def quote_def newline_def carriageReturn_def
  TrimSpace_def TrimLeft.simps TrimRight.simps leadingSpace_def trailingSpace_def isSpace_def
  cellValue_def timeRegex_MatchString_def datePattern_def timePattern_def
  time_Parse_def parseLayout_def bindE_def getyear_def skip_def daysIn_def isLeap_def
  zeroTime_def digitVal_def isDigit_def isReSpace_def byte_def

text \<open>
  Claim C1, at two inputs. For the columns name and created_at, the text
  "alice, 2023-01-02 03:04:05" gives one row: the string alice and the time January 2, 2023,
  03:04:05. The text "alice, 2023-01-02", with a cell of the date-only form, gives the string
  alice and the zero time, January 1 of year 1, 00:00:00: the cell matches \<^verbatim>\<open>timeRegex\<close>,
  \<^verbatim>\<open>time.Parse\<close> fails on it for want of the time of day that the layout asks for, and
  the error is dropped.
\<close>

theorem RowsFromCSVString_date_only_cell:
  "RowsFromCSVString [''name'', ''created_at''] ''alice, 2023-01-02 03:04:05'' =
     Inr \<lparr>closed = False, columns = [''name'', ''created_at''],
          rows = [[Value_string ''alice'',
                   Value_time \<lparr>year = 2023, month = 1, day = 2,
                               hour = 3, minute = 4, second = 5\<rparr>]],
          pos = 0\<rparr>
   \<and> RowsFromCSVString [''name'', ''created_at''] ''alice, 2023-01-02'' =
     Inr \<lparr>closed = False, columns = [''name'', ''created_at''],
          rows = [[Value_string ''alice'',
                   Value_time \<lparr>year = 1, month = 1, day = 1,
                               hour = 0, minute = 0, second = 0\<rparr>]],
          pos = 0\<rparr>"
  by (simp add: csv_eval)

text \<open>
  Claim C9, as the code has it. When a call of \<^verbatim>\<open>Read\<close> returns an error or a nil
  record, the loop stops and returns the rows made so far, and no error. For every column list
  and text, where no record read before that call has more fields than there are columns (so
  that the loop gets to the call), \<^verbatim>\<open>RowsFromCSVString\<close> returns the \<^verbatim>\<open>Rows\<close> whose
  rows are those records, in order, and nothing after them. The calls that end the loop are
  the one that finds malformed quotes, the one that reads a record of another number of fields
  than the first record, and the one at the end of the input, where the record is nil.
\<close>

theorem RowsFromCSVString_lenient:
  "(csv_Read rd = ((r, e), rd') \<and> (e \<noteq> None \<or> r = None) \<longrightarrow> readLoop rd rs = Inr rs)
   \<and> ((\<forall>r\<in>set (goodRecords (csv_NewReader (TrimSpace s))). length r \<le> length cols) \<longrightarrow>
        RowsFromCSVString cols s =
          Inr \<lparr>closed = False, columns = cols,
               rows = map (rowOf (length cols)) (goodRecords (csv_NewReader (TrimSpace s))),
               pos = 0\<rparr>)"
proof -
  have "readLoop rd rs = Inr rs" if "csv_Read rd = ((r, e), rd')" and "e \<noteq> None \<or> r = None"
    using that by (rule readLoop_stops)
  moreover have "RowsFromCSVString cols s =
          Inr \<lparr>closed = False, columns = cols,
               rows = map (rowOf (length cols)) (goodRecords (csv_NewReader (TrimSpace s))),
               pos = 0\<rparr>"
    if "\<forall>r\<in>set (goodRecords (csv_NewReader (TrimSpace s))). length r \<le> length cols"
    using that by (simp add: RowsFromCSVString_def readLoop_goodRecords)
  ultimately show ?thesis
    by blast
qed

theorem RowsFromCSVString_lenient_witness:
  "csv_Read \<lparr>lines = [''y,b'' @ [CHR 0x22] @ ''d'' @ [CHR 0x0A], ''z,3''], FieldsPerRecord = 2\<rparr> =
     ((Some [''y''], Some ErrBareQuote), \<lparr>lines = [''z,3''], FieldsPerRecord = 2\<rparr>)
   \<and> readLoop \<lparr>lines = [''y,b'' @ [CHR 0x22] @ ''d'' @ [CHR 0x0A], ''z,3''], FieldsPerRecord = 2\<rparr>
        \<lparr>closed = False, columns = [''k'', ''v''],
         rows = [[Value_string ''x'', Value_string ''1'']], pos = 0\<rparr> =
       Inr \<lparr>closed = False, columns = [''k'', ''v''],
            rows = [[Value_string ''x'', Value_string ''1'']], pos = 0\<rparr>
   \<and> goodRecords (csv_NewReader (TrimSpace
         (''x,1'' @ [CHR 0x0A] @ ''y,b'' @ [CHR 0x22] @ ''d'' @ [CHR 0x0A] @ ''z,3''))) =
       [[''x'', ''1'']]
   \<and> RowsFromCSVString [''k'', ''v'']
         (''x,1'' @ [CHR 0x0A] @ ''y,b'' @ [CHR 0x22] @ ''d'' @ [CHR 0x0A] @ ''z,3'') =
       Inr \<lparr>closed = False, columns = [''k'', ''v''],
            rows = [[Value_string ''x'', Value_string ''1'']], pos = 0\<rparr>"
proof -
  let ?rd = "\<lparr>lines = [''y,b'' @ [CHR 0x22] @ ''d'' @ [CHR 0x0A], ''z,3''], FieldsPerRecord = 2\<rparr>"
  let ?s = "''x,1'' @ [CHR 0x0A] @ ''y,b'' @ [CHR 0x22] @ ''d'' @ [CHR 0x0A] @ ''z,3''"
  let ?rs = "\<lparr>closed = False, columns = [''k'', ''v''],
         rows = [[Value_string ''x'', Value_string ''1'']], pos = 0\<rparr>"
  have 1: "csv_Read ?rd = ((Some [''y''], Some ErrBareQuote), \<lparr>lines = [''z,3''], FieldsPerRecord = 2\<rparr>)"
    by (simp add: csv_eval)
  have 2: "goodRecords (csv_NewReader (TrimSpace ?s)) = [[''x'', ''1'']]"
    by (simp add: csv_eval goodRecords.simps)
  have 3: "rowOf (Suc (Suc 0)) [''x'', ''1''] = [Value_string ''x'', Value_string ''1'']"
    by (simp add: rowOf_def csv_eval)
  show ?thesis
    using 1 2 3
      RowsFromCSVString_lenient [of ?rd "Some [''y'']" "Some ErrBareQuote"
        "\<lparr>lines = [''z,3''], FieldsPerRecord = 2\<rparr>" ?rs ?s "[''k'', ''v'']"]
    by simp
qed

text \<open>
  An empty line does not end the loop: \<^verbatim>\<open>Read\<close> skips it, and the records after it are
  read. Here the second of the three lines of the text is empty, and both records become rows.
\<close>

theorem RowsFromCSVString_blank_line:
  "readLines [] (TrimSpace (''x,1'' @ [newline, newline] @ ''y,2'')) =
     [''x,1'' @ [newline], [newline], ''y,2'']
   \<and> RowsFromCSVString [''k'', ''v''] (''x,1'' @ [newline, newline] @ ''y,2'') =
       Inr \<lparr>closed = False, columns = [''k'', ''v''],
            rows = [[Value_string ''x'', Value_string ''1''],
                    [Value_string ''y'', Value_string ''2'']],
            pos = 0\<rparr>
   \<and> RowsFromCSVString [''k'', ''v''] (''x,1'' @ [newline, newline] @ ''y,2'') \<noteq>
       Inr \<lparr>closed = False, columns = [''k'', ''v''],
            rows = [[Value_string ''x'', Value_string ''1'']],
            pos = 0\<rparr>"
  by (simp add: csv_eval)

end
